theory Spec2Isabelle
  imports Main
begin

section \<open>Characters\<close>

text \<open>
  A Python \<open>str\<close> is a sequence of code points. The model reads a \<^typ>\<open>char\<close> as one code
  point in the range 0..255 (Latin-1), so a \<^typ>\<open>string\<close> is a text whose code points are
  all below 256. The character classes below are the ones the \<open>re\<close> module and the \<open>str\<close>
  methods use for such code points.
\<close>

definition code :: "char \<Rightarrow> int" where
  "code c = of_char c"

definition is_digit :: "char \<Rightarrow> bool" where
  \<comment> \<open>the class \<open>[0-9]\<close>\<close>
  "is_digit c = (48 \<le> code c \<and> code c \<le> 57)"

definition is_space :: "char \<Rightarrow> bool" where
  \<comment> \<open>\<open>\s\<close> of a \<open>str\<close> pattern, and what \<open>str.strip()\<close> removes\<close>
  "is_space c = ((9 \<le> code c \<and> code c \<le> 13) \<or> (28 \<le> code c \<and> code c \<le> 32)
                 \<or> code c = 133 \<or> code c = 160)"

definition is_word :: "char \<Rightarrow> bool" where
  \<comment> \<open>\<open>\w\<close> of a \<open>str\<close> pattern: alphanumeric or underscore\<close>
  "is_word c = ((48 \<le> code c \<and> code c \<le> 57) \<or> (65 \<le> code c \<and> code c \<le> 90)
                \<or> code c = 95 \<or> (97 \<le> code c \<and> code c \<le> 122)
                \<or> code c = 170 \<or> code c = 178 \<or> code c = 179 \<or> code c = 181
                \<or> code c = 185 \<or> code c = 186 \<or> (188 \<le> code c \<and> code c \<le> 190)
                \<or> (192 \<le> code c \<and> code c \<le> 214) \<or> (216 \<le> code c \<and> code c \<le> 246)
                \<or> 248 \<le> code c)"

definition is_linebreak :: "char \<Rightarrow> bool" where
  \<comment> \<open>the line boundaries of \<open>str.splitlines()\<close>\<close>
  "is_linebreak c = ((10 \<le> code c \<and> code c \<le> 13) \<or> (28 \<le> code c \<and> code c \<le> 30)
                     \<or> code c = 133)"

definition lower :: "char \<Rightarrow> char" where
  \<comment> \<open>the lower-case partner used by \<open>re.IGNORECASE\<close>\<close>
  "lower c = (if (65 \<le> code c \<and> code c \<le> 90)
                 \<or> (192 \<le> code c \<and> code c \<le> 222 \<and> code c \<noteq> 215)
              then char_of (code c + 32) else c)"

section \<open>The regular expressions of the \<open>re\<close> module\<close>

text \<open>
  Only the constructs the source uses: single-character atoms, a repetition of one atom
  (greedy or lazy, with a lower and an optional upper bound), the word boundary \<open>\b\<close>,
  concatenation and alternation. Groups do not change what is matched.
\<close>

datatype atom = Lit char | AnyChar | Digit | Space | OneOf string

datatype rx = One atom | Rep atom nat "nat option" bool | WordB | Eps | Seq rx rx | Alt rx rx

abbreviation Star :: "atom \<Rightarrow> rx" where "Star a \<equiv> Rep a 0 None True"
abbreviation Plus :: "atom \<Rightarrow> rx" where "Plus a \<equiv> Rep a 1 None True"
abbreviation Opt :: "atom \<Rightarrow> rx" where "Opt a \<equiv> Rep a 0 (Some 1) True"
abbreviation LazyStar :: "atom \<Rightarrow> rx" where "LazyStar a \<equiv> Rep a 0 None False"
abbreviation Between :: "atom \<Rightarrow> nat \<Rightarrow> nat \<Rightarrow> rx" where "Between a m n \<equiv> Rep a m (Some n) True"

primrec str :: "string \<Rightarrow> rx" where
  "str [] = Eps"
| "str (c # cs) = Seq (One (Lit c)) (str cs)"

primrec alts :: "rx list \<Rightarrow> rx" where
  \<comment> \<open>\<open>r1|r2|...|rn\<close>; the source has no empty alternation (modelled as a pattern without matches)\<close>
  "alts [] = Rep AnyChar 1 (Some 0) True"
| "alts (r # rs) = (if rs = [] then r else Alt r (alts rs))"

fun atom_match :: "bool \<Rightarrow> atom \<Rightarrow> char \<Rightarrow> bool" where
  "atom_match ic (Lit l) c = (if ic then lower c = lower l else c = l)"
| "atom_match ic AnyChar c = (c \<noteq> CHR 0x0A)"
| "atom_match ic Digit c = is_digit c"
| "atom_match ic Space c = is_space c"
| "atom_match ic (OneOf cs) c = (if ic then lower c \<in> lower ` set cs else c \<in> set cs)"

definition at_boundary :: "string \<Rightarrow> nat \<Rightarrow> bool" where
  \<comment> \<open>\<open>\b\<close>: exactly one of the characters before and after the position is a word character\<close>
  "at_boundary s i = ((0 < i \<and> i \<le> length s \<and> is_word (s ! (i - 1)))
                      \<noteq> (i < length s \<and> is_word (s ! i)))"

definition run :: "bool \<Rightarrow> atom \<Rightarrow> string \<Rightarrow> nat \<Rightarrow> nat" where
  \<comment> \<open>how many characters from position \<open>i\<close> on match the atom\<close>
  "run ic a s i = length (takeWhile (atom_match ic a) (drop i s))"

text \<open>
  \<open>ends ic r s i\<close> lists the positions where a match of \<open>r\<close> that starts at \<open>i\<close> can end,
  in the order in which the backtracking matcher tries them; the match it reports is the
  first one. \<open>ic\<close> is the flag \<open>re.IGNORECASE\<close>.
\<close>

fun ends :: "bool \<Rightarrow> rx \<Rightarrow> string \<Rightarrow> nat \<Rightarrow> nat list" where
  "ends ic (One a) s i = (if i < length s \<and> atom_match ic a (s ! i) then [i + 1] else [])"
| "ends ic (Rep a lo hi greedy) s i =
     (let n = run ic a s i;
          m = (case hi of None \<Rightarrow> n | Some h \<Rightarrow> min n h)
      in if m < lo then []
         else if greedy then rev [i + lo ..< i + m + 1] else [i + lo ..< i + m + 1])"
| "ends ic WordB s i = (if at_boundary s i then [i] else [])"
| "ends ic Eps s i = [i]"
| "ends ic (Seq r1 r2) s i = concat (map (ends ic r2 s) (ends ic r1 s i))"
| "ends ic (Alt r1 r2) s i = ends ic r1 s i @ ends ic r2 s i"

text \<open>\<open>pattern.search(s, pos)\<close>: the leftmost start from \<open>pos\<close> on with a match, as (start, end).\<close>

function search_from :: "bool \<Rightarrow> rx \<Rightarrow> string \<Rightarrow> nat \<Rightarrow> (nat \<times> nat) option" where
  "search_from ic r s st =
     (if length s < st then None
      else case ends ic r s st of
             [] \<Rightarrow> search_from ic r s (st + 1)
           | e # _ \<Rightarrow> Some (st, e))"
  by pat_completeness auto
termination
  by (relation "measure (\<lambda>(ic, r, s, st). length s + 1 - st)") auto

declare search_from.simps [simp del]

definition slice :: "string \<Rightarrow> nat \<Rightarrow> nat \<Rightarrow> string" where
  \<comment> \<open>\<open>s[a:b]\<close>\<close>
  "slice s a b = take (b - a) (drop a s)"

lemma ends_bounds:
  "e \<in> set (ends ic r s i) \<Longrightarrow> i \<le> length s \<Longrightarrow> i \<le> e \<and> e \<le> length s"
proof (induction r arbitrary: i e)
  case (Rep a lo hi greedy)
  have "run ic a s i \<le> length s - i"
    unfolding run_def by (rule order_trans [OF length_takeWhile_le]) simp
  with Rep show ?case
    by (auto simp: Let_def split: if_splits option.splits)
next
  case (Seq r1 r2)
  then show ?case by fastforce
qed (auto split: if_splits)

lemma search_from_bounds:
  "search_from ic r s pos = Some (st, en) \<Longrightarrow> pos \<le> st \<and> st \<le> en \<and> en \<le> length s"
proof (induction ic r s pos rule: search_from.induct)
  case (1 ic r s st')
  show ?case
  proof (cases "ends ic r s st'")
    case Nil
    with 1 show ?thesis by (fastforce simp: search_from.simps [of ic r s st'] split: if_splits)
  next
    case (Cons e es)
    with 1 have "st = st'" "en = e" "st' \<le> length s"
      by (auto simp: search_from.simps [of ic r s st'] split: if_splits)
    moreover have "e \<in> set (ends ic r s st')" using Cons by simp
    ultimately show ?thesis using ends_bounds by blast
  qed
qed

text \<open>
  \<open>re.sub(r, repl, s)\<close> with a constant replacement: the non-overlapping matches are
  replaced from left to right. After an empty match the scan copies one character and
  moves on; neither pattern the source passes to \<open>re.sub\<close> has an empty match.
\<close>

function sub_from :: "bool \<Rightarrow> rx \<Rightarrow> string \<Rightarrow> string \<Rightarrow> nat \<Rightarrow> string" where
  "sub_from ic r repl s pos =
     (case search_from ic r s pos of
        None \<Rightarrow> drop pos s
      | Some (st, en) \<Rightarrow>
          slice s pos st @ repl @
            (if st < en then sub_from ic r repl s en
             else slice s st (st + 1) @ sub_from ic r repl s (st + 1)))"
  by pat_completeness auto
termination
proof (relation "measure (\<lambda>(ic, r, repl, s, pos). length s + 1 - pos)", goal_cases)
  case 1
  show ?case by simp
next
  case (2 ic r repl s pos x st en)
  then show ?case using search_from_bounds [of ic r s pos st en] by auto
next
  case (3 ic r repl s pos x st en)
  then show ?case using search_from_bounds [of ic r s pos st en] by auto
qed

declare sub_from.simps [simp del]

definition re_sub :: "rx \<Rightarrow> string \<Rightarrow> string \<Rightarrow> string" where
  "re_sub r repl s = sub_from False r repl s 0"

section \<open>The \<open>str\<close> methods\<close>

definition strip :: "string \<Rightarrow> string" where
  "strip s = rev (dropWhile is_space (rev (dropWhile is_space s)))"

definition replace_comma :: "string \<Rightarrow> string" where
  \<comment> \<open>\<open>.replace(',', '.')\<close>\<close>
  "replace_comma s = map (\<lambda>c. if c = CHR '','' then CHR ''.'' else c) s"

text \<open>
  \<open>text.splitlines()\<close>: the text is cut at every line boundary, a carriage return followed
  by a line feed counting as one, and a boundary at the very end opens no further line.
  \<open>lines_acc\<close> carries the characters of the line being read.
\<close>

fun lines_acc :: "string \<Rightarrow> string \<Rightarrow> string list" where
  "lines_acc cur [] = (if cur = [] then [] else [cur])"
| "lines_acc cur [c] = (if is_linebreak c then [cur] else [cur @ [c]])"
| "lines_acc cur (c # d # cs) =
     (if c = CHR 0x0D \<and> d = CHR 0x0A then cur # lines_acc [] cs
      else if is_linebreak c then cur # lines_acc [] (d # cs)
      else lines_acc (cur @ [c]) (d # cs))"

definition splitlines :: "string \<Rightarrow> string list" where
  "splitlines text = lines_acc [] text"

section \<open>Clinical value extraction\<close>

definition bounded :: "rx list \<Rightarrow> rx" where
  \<comment> \<open>\<open>\b(?:r1|...|rn)\b\<close>\<close>
  "bounded rs = Seq WordB (Seq (alts rs) WordB)"

definition ws :: rx where
  \<comment> \<open>\<open>\s*\<close>\<close>
  "ws = Star Space"

definition patterns :: "(string \<times> rx) list" where
  "patterns =
    [(''Plasma Glucose'', bounded
        [Seq (str ''Plasma'') (Seq ws (str ''Glucose'')),
         Seq (str ''Plasma'') (Seq ws (str ''Glu'')),
         Seq (str ''Glu'') (Seq ws (str ''(Plasma)'')),
         Seq (str ''Glucose,'') (Seq ws (str ''Plasma'')),
         str ''P-Glucose'',
         Seq (str ''Plazma'') (Seq ws (str ''Glucose'')),
         Seq (str ''Plasma'') (Seq ws (str ''Glukose''))]),
     (''HbA1c'', bounded
        [str ''HbA1c'', str ''A1c'', str ''HbAic'', str ''HbAIc'', str ''H6A1c'', str ''HbAlc'',
         str ''Glycosylated Hemoglobin'', str ''HgbA1c'', str ''Hemoglobin A1c'', str ''HbA1C'',
         str ''HBA1c'', str ''Hemogloben A1c'']),
     (''HDL'', bounded
        [str ''HDL'', str ''HDL-C'', str ''High-density Lipoprotein'', str ''HDLc'']),
     (''LDL'', bounded
        [str ''LDL'', str ''LDL-C'', str ''Low-density Lipoprotein'', str ''LDLc'']),
     (''Triglycerides'', bounded
        [str ''Triglycerides'', str ''Triglyceride'', str ''Trigs'', str ''Trig'']),
     (''Albumin'', bounded
        [str ''Serum Albumin'', str ''Albumin'', str ''Albm'', str ''Albumn'', str ''Albmin'']),
     (''Cholesterol'', bounded
        [str ''Total Cholesterol'', str ''Cholesterol'', str ''Cholestrol'', str ''Chol'',
         str ''Tot Chol'']),
     (''BMI'', bounded
        [str ''BMI'', str ''Body Mass Index'', str ''B.M.I.'']),
     (''Blood Pressure'', bounded
        [str ''Blood Pressure'', str ''BP'', str ''B.P.'', str ''BloodPressure'']),
     (''TSH'', bounded
        [str ''TSH'', str ''Thyroid Stimulating Hormone'', str ''T.S.H.'', str ''Thyrotropin'',
         str ''THS'', str ''Tyroid Stimulating Hormone'']),
     (''LDH'', bounded
        [str ''LDH'', str ''LD'', str ''Lactate Dehydrogenase'', str ''LD Value'', str ''LHD'',
         str ''Lactate Dehidrogenase'']),
     (''CK'', bounded
        [str ''CK'', str ''Creatine Kinase'', str ''CPK'', str ''Creatine Phosphokinase'',
         str ''Creatin Kinase'', str ''CKK'', str ''Cretine Kinase''])]"

definition num_pat :: rx where
  \<comment> \<open>\<open>\b([0-9]+[.,]?[0-9]*)\b\<close>\<close>
  "num_pat = Seq WordB (Seq (Seq (Plus Digit) (Seq (Opt (OneOf ''.,'')) (Star Digit))) WordB)"

definition bp_pat :: rx where
  \<comment> \<open>\<open>([0-9]{2,3}/[0-9]{2,3})\<close>\<close>
  "bp_pat = Seq (Between Digit 2 3) (Seq (One (Lit CHR ''/'')) (Between Digit 2 3))"

definition paren_pat :: rx where
  \<comment> \<open>\<open>\(.*?\)\<close>\<close>
  "paren_pat = Seq (One (Lit CHR ''('')) (Seq (LazyStar AnyChar) (One (Lit CHR '')'')))"

definition space_pat :: rx where
  \<comment> \<open>\<open>\s+\<close>\<close>
  "space_pat = Plus Space"

definition clean :: "string \<Rightarrow> string" where
  \<comment> \<open>\<open>clean_line\<close> of a line\<close>
  "clean line = strip (re_sub space_pat '' '' (re_sub paren_pat [] line))"

text \<open>
  The dictionary \<open>results\<close> keeps its keys in the order in which they were first stored,
  so it is an association list; a value is a string or \<open>None\<close>. The calls of \<open>print\<close>
  in the loops write to the console and change nothing that the function returns; they
  have no counterpart here.
\<close>

type_synonym results = "(string \<times> string option) list"

definition has_key :: "results \<Rightarrow> string \<Rightarrow> bool" where
  \<comment> \<open>\<open>key in results\<close>\<close>
  "has_key results key = (key \<in> set (map fst results))"

definition store :: "results \<Rightarrow> string \<Rightarrow> string option \<Rightarrow> results" where
  \<comment> \<open>\<open>results[key] = value\<close>: a new key goes to the end, an old one keeps its place\<close>
  "store results key v =
     (if has_key results key then map (\<lambda>(k, w). if k = key then (k, v) else (k, w)) results
      else results @ [(key, v)])"

definition scan_key :: "string \<Rightarrow> results \<Rightarrow> string \<times> rx \<Rightarrow> results" where
  \<comment> \<open>the body of the loop over \<open>patterns.items()\<close>\<close>
  "scan_key clean_line results kp =
     (let key = fst kp; pattern = snd kp in
      if \<not> has_key results key then
        (case search_from True pattern clean_line 0 of
           None \<Rightarrow> results
         | Some (m_start, m_end) \<Rightarrow>
             if key = ''Blood Pressure'' then
               (case search_from False bp_pat clean_line m_end of
                  None \<Rightarrow> results
                | Some (a, b) \<Rightarrow> store results key (Some (slice clean_line a b)))
             else
               (case search_from False num_pat clean_line m_end of
                  None \<Rightarrow> results
                | Some (a, b) \<Rightarrow> store results key (Some (replace_comma (slice clean_line a b)))))
      else results)"

definition scan_line :: "results \<Rightarrow> string \<Rightarrow> results" where
  \<comment> \<open>the body of the loop over the lines\<close>
  "scan_line results line = foldl (scan_key (clean line)) results patterns"

definition fill_missing :: "results \<Rightarrow> results" where
  \<comment> \<open>\<open>for key in patterns: if key not in results: results[key] = None\<close>\<close>
  "fill_missing results =
     foldl (\<lambda>res kp. if \<not> has_key res (fst kp) then store res (fst kp) None else res)
       results patterns"

definition extract_health_values :: "string \<Rightarrow> results" where
  "extract_health_values text = fill_missing (foldl scan_line [] (splitlines text))"

section \<open>Notions used in the statements\<close>

text \<open>
  \<open>value_on_line clean_line (key, pattern)\<close> is the value that the body of the loop over the
  patterns stores for \<open>key\<close> when it reads \<open>clean_line\<close> with \<open>key\<close> not yet in \<open>results\<close>:
  the label has to match, and a value has to follow it on the same line. \<open>first_value\<close> is
  that value on the first line that has one, \<open>new_entries\<close> the entries one line adds, and
  \<open>fill_key\<close> the body of the closing loop.
\<close>


definition value_on_line :: "string \<Rightarrow> string \<times> rx \<Rightarrow> string option" where
  "value_on_line clean_line kp =
     (case search_from True (snd kp) clean_line 0 of
        None \<Rightarrow> None
      | Some (m_start, m_end) \<Rightarrow>
          if fst kp = ''Blood Pressure'' then
            (case search_from False bp_pat clean_line m_end of
               None \<Rightarrow> None
             | Some (a, b) \<Rightarrow> Some (slice clean_line a b))
          else
            (case search_from False num_pat clean_line m_end of
               None \<Rightarrow> None
             | Some (a, b) \<Rightarrow> Some (replace_comma (slice clean_line a b))))"

fun first_value :: "string list \<Rightarrow> string \<times> rx \<Rightarrow> string option" where
  "first_value [] kp = None"
| "first_value (l # ls) kp =
     (case value_on_line (clean l) kp of Some v \<Rightarrow> Some v | None \<Rightarrow> first_value ls kp)"

definition new_entries :: "string \<Rightarrow> results \<Rightarrow> (string \<times> rx) list \<Rightarrow> results" where
  "new_entries cl res kps =
     map (\<lambda>kp. (fst kp, value_on_line cl kp))
       (filter (\<lambda>kp. \<not> has_key res (fst kp) \<and> value_on_line cl kp \<noteq> None) kps)"

definition fill_key :: "results \<Rightarrow> string \<times> rx \<Rightarrow> results" where
  "fill_key res kp = (if \<not> has_key res (fst kp) then store res (fst kp) None else res)"

definition metric_names :: "string list" where
  \<comment> \<open>the twelve metrics of the registry, in its order\<close>
  "metric_names = [''Plasma Glucose'', ''HbA1c'', ''HDL'', ''LDL'', ''Triglycerides'', ''Albumin'',
                   ''Cholesterol'', ''BMI'', ''Blood Pressure'', ''TSH'', ''LDH'', ''CK'']"

text \<open>
  \<open>first_line ls kp\<close> is the index of the first line with a value for the metric,
  \<open>resolved_on ls i\<close> the entries of the metrics whose first such line is line \<open>i\<close>, in
  registry order, and \<open>resolution_order\<close> lists these line by line, followed by the
  metrics without a value, in registry order.
\<close>

fun first_line :: "string list \<Rightarrow> string \<times> rx \<Rightarrow> nat option" where
  "first_line [] kp = None"
| "first_line (l # ls) kp =
     (if value_on_line (clean l) kp \<noteq> None then Some 0 else map_option Suc (first_line ls kp))"

definition resolved_on :: "string list \<Rightarrow> nat \<Rightarrow> results" where
  "resolved_on ls i =
     map (\<lambda>kp. (fst kp, value_on_line (clean (ls ! i)) kp))
       (filter (\<lambda>kp. first_line ls kp = Some i) patterns)"

definition resolution_order :: "string list \<Rightarrow> results" where
  "resolution_order ls =
     concat (map (resolved_on ls) [0..<length ls])
     @ map (\<lambda>kp. (fst kp, None)) (filter (\<lambda>kp. first_line ls kp = None) patterns)"



text \<open>
  The shapes of the stored values. \<open>decimal_shape\<close>: one or more digits, then optionally a
  period and any number of digits (none included). \<open>strict_decimal_shape\<close>: the same
  with at least one digit after the period. \<open>ratio_shape\<close>: two or three digits, a
  slash, two or three digits.
\<close>

definition decimal_shape :: "string \<Rightarrow> bool" where
  "decimal_shape v =
     (let ds = takeWhile is_digit v; rest = dropWhile is_digit v
      in ds \<noteq> [] \<and> (rest = [] \<or> (hd rest = CHR ''.'' \<and> list_all is_digit (tl rest))))"

definition strict_decimal_shape :: "string \<Rightarrow> bool" where
  "strict_decimal_shape v =
     (let ds = takeWhile is_digit v; rest = dropWhile is_digit v
      in ds \<noteq> [] \<and> (rest = [] \<or> (hd rest = CHR ''.'' \<and> tl rest \<noteq> [] \<and> list_all is_digit (tl rest))))"

definition ratio_shape :: "string \<Rightarrow> bool" where
  "ratio_shape v =
     (let ds = takeWhile is_digit v; rest = dropWhile is_digit v
      in (length ds = 2 \<or> length ds = 3) \<and> rest \<noteq> [] \<and> hd rest = CHR ''/''
         \<and> list_all is_digit (tl rest) \<and> (length (tl rest) = 2 \<or> length (tl rest) = 3))"

text \<open>
  A number token of a line, as \<open>num_pat\<close> delimits it: the text between two word
  boundaries that consists of one or more digits, optionally followed by one period or
  comma and any number of digits, none included.
\<close>

definition token_shape :: "string \<Rightarrow> bool" where
  "token_shape v =
     (let ds = takeWhile is_digit v; rest = dropWhile is_digit v
      in ds \<noteq> [] \<and> (rest = [] \<or> (hd rest \<in> set ''.,'' \<and> list_all is_digit (tl rest))))"

definition num_token :: "string \<Rightarrow> nat \<Rightarrow> nat \<Rightarrow> bool" where
  "num_token s a b =
     (a < b \<and> b \<le> length s \<and> at_boundary s a \<and> at_boundary s b \<and> token_shape (slice s a b))"

text \<open>
  \<open>num_tail s e1\<close>: the ends that the part \<open>[.,]?[0-9]*\<close> of \<open>num_pat\<close> tries from position
  \<open>e1\<close>, in the order in which it tries them.
\<close>

definition num_tail :: "string \<Rightarrow> nat \<Rightarrow> nat list" where
  "num_tail s e1 =
     concat (map (ends False (Star Digit) s) (ends False (Opt (OneOf ''.,'')) s e1))"

text \<open>
  The decimal extractor as the specification words it: scan forward from the start offset
  for the first maximal run of digits, optionally continued by one separator (a period or
  a comma) and further digits, and replace the comma by a period.
\<close>

fun spec_first_decimal :: "string \<Rightarrow> string option" where
  "spec_first_decimal [] = None"
| "spec_first_decimal (c # cs) =
     (if is_digit c then
        (let ds = takeWhile is_digit (c # cs); rest = dropWhile is_digit (c # cs)
         in case rest of
              sep # d # _ \<Rightarrow>
                if sep \<in> set ''.,'' \<and> is_digit d
                then Some (replace_comma (ds @ sep # takeWhile is_digit (tl rest)))
                else Some ds
            | _ \<Rightarrow> Some ds)
      else spec_first_decimal cs)"

definition spec_decimal_value :: "string \<Rightarrow> nat \<Rightarrow> string option" where
  "spec_decimal_value line start = spec_first_decimal (drop start line)"

text \<open>
  The line normalizer as the specification words it. \<open>spec_strip_parens\<close>: every opening
  parenthesis that has a closing one after it is removed together with everything up to
  the first closing one; other parentheses stay. \<open>spec_collapse\<close>: every run of
  whitespace becomes one space. \<open>spec_trim\<close>: the whitespace before the first and after
  the last character that is not whitespace is removed.
\<close>

function spec_strip_parens :: "string \<Rightarrow> string" where
  "spec_strip_parens [] = []"
| "spec_strip_parens (c # cs) =
     (if c = CHR ''('' \<and> CHR '')'' \<in> set cs
      then spec_strip_parens (tl (dropWhile (\<lambda>x. x \<noteq> CHR '')'') cs))
      else c # spec_strip_parens cs)"
  by pat_completeness auto
termination
proof (relation "measure length", goal_cases)
  case 1
  show ?case by simp
next
  case (2 c cs)
  have "length (tl (dropWhile (\<lambda>x. x \<noteq> CHR '')'') cs)) \<le> length cs"
    using length_dropWhile_le [of "\<lambda>x. x \<noteq> CHR '')''" cs] by simp
  then show ?case by simp
next
  case (3 c cs)
  show ?case by simp
qed

function spec_collapse :: "string \<Rightarrow> string" where
  "spec_collapse [] = []"
| "spec_collapse (c # cs) =
     (if is_space c then CHR '' '' # spec_collapse (dropWhile is_space cs)
      else c # spec_collapse cs)"
  by pat_completeness auto
termination
proof (relation "measure length", goal_cases)
  case 1
  show ?case by simp
next
  case (2 c cs)
  show ?case using length_dropWhile_le [of is_space cs] by simp
next
  case (3 c cs)
  show ?case by simp
qed

fun trim_leading :: "string \<Rightarrow> string" where
  "trim_leading [] = []"
| "trim_leading (c # cs) = (if is_space c then trim_leading cs else c # cs)"

fun trim_trailing :: "string \<Rightarrow> string" where
  "trim_trailing [] = []"
| "trim_trailing (c # cs) =
     (if trim_trailing cs = [] \<and> is_space c then [] else c # trim_trailing cs)"

definition spec_trim :: "string \<Rightarrow> string" where
  "spec_trim s = trim_trailing (trim_leading s)"

definition spec_normalize :: "string \<Rightarrow> string" where
  "spec_normalize line = spec_trim (spec_collapse (spec_strip_parens line))"







section \<open>Facts about the matcher\<close>

lemma set_ends_Rep:
  "set (ends ic (Rep a lo hi g) s i) =
     {e. i + lo \<le> e \<and> e \<le> i + run ic a s i \<and> (\<forall>h. hi = Some h \<longrightarrow> e \<le> i + h)}"
  by (auto simp: Let_def split: option.splits)

lemma search_from_SomeD:
  "search_from ic r s pos = Some (a, b) \<Longrightarrow>
     pos \<le> a \<and> a \<le> length s \<and> ends ic r s a \<noteq> [] \<and> b = hd (ends ic r s a)
     \<and> (\<forall>a'. pos \<le> a' \<and> a' < a \<longrightarrow> ends ic r s a' = [])"
proof (induction ic r s pos rule: search_from.induct)
  case (1 ic r s st)
  show ?case
  proof (cases "ends ic r s st")
    case Nil
    with 1 have le: "st \<le> length s" and rec: "search_from ic r s (st + 1) = Some (a, b)"
      by (auto simp: search_from.simps [of ic r s st] split: if_splits)
    from 1(1) [OF _ Nil rec] le
    have IH: "st + 1 \<le> a \<and> a \<le> length s \<and> ends ic r s a \<noteq> [] \<and> b = hd (ends ic r s a)
      \<and> (\<forall>a'. st + 1 \<le> a' \<and> a' < a \<longrightarrow> ends ic r s a' = [])" by simp
    have "ends ic r s a' = []" if "st \<le> a'" "a' < a" for a'
      using that IH Nil by (cases "a' = st") auto
    with IH show ?thesis by auto
  next
    case (Cons e es)
    with 1(2) show ?thesis by (auto simp: search_from.simps [of ic r s st] split: if_splits)
  qed
qed

lemma search_from_NoneD:
  "search_from ic r s pos = None \<Longrightarrow> pos \<le> a \<Longrightarrow> a \<le> length s \<Longrightarrow> ends ic r s a = []"
proof (induction ic r s pos rule: search_from.induct)
  case (1 ic r s st)
  show ?case
  proof (cases "ends ic r s st")
    case Nil
    show ?thesis
    proof (cases "a = st")
      case True
      then show ?thesis using Nil by simp
    next
      case False
      with 1 Nil show ?thesis by (auto simp: search_from.simps [of ic r s st] split: if_splits)
    qed
  next
    case (Cons e es)
    with 1 show ?thesis by (auto simp: search_from.simps [of ic r s st] split: if_splits)
  qed
qed

lemma num_pat_nonempty: "e \<in> set (ends False num_pat s i) \<Longrightarrow> i < e"
  unfolding num_pat_def
  by (auto simp: set_ends_Rep simp del: ends.simps(2) split: if_splits)

lemma bp_pat_nonempty: "e \<in> set (ends False bp_pat s i) \<Longrightarrow> i < e"
  unfolding bp_pat_def
  by (auto simp: set_ends_Rep simp del: ends.simps(2) split: if_splits)

lemma search_nonempty:
  assumes "search_from False r s pos = Some (a, b)"
    and "\<And>e i. e \<in> set (ends False r s i) \<Longrightarrow> i < e"
  shows "slice s a b \<noteq> []"
proof -
  from search_from_SomeD [OF assms(1)] have "b \<in> set (ends False r s a)" by simp
  then have "a < b" by (rule assms(2))
  moreover have "b \<le> length s" using search_from_bounds [OF assms(1)] by simp
  ultimately show ?thesis by (simp add: slice_def)
qed

section \<open>The scan, one line and one key at a time\<close>

lemma scan_key_eq:
  "scan_key cl res kp =
     (if has_key res (fst kp) \<or> value_on_line cl kp = None then res
      else res @ [(fst kp, value_on_line cl kp)])"
  by (auto simp: scan_key_def value_on_line_def store_def Let_def split: option.splits prod.splits)

lemma has_key_append: "has_key (res @ xs) k = (has_key res k \<or> has_key xs k)"
  by (auto simp: has_key_def)

lemma new_entries_Cons:
  "new_entries cl res (kp # kps) =
     (if \<not> has_key res (fst kp) \<and> value_on_line cl kp \<noteq> None
      then [(fst kp, value_on_line cl kp)] else []) @ new_entries cl res kps"
  by (simp add: new_entries_def)

lemma has_key_snoc: "has_key (res @ [(k, v)]) k' = (has_key res k' \<or> k' = k)"
  by (auto simp: has_key_def)

lemma foldl_scan_key:
  "distinct (map fst kps) \<Longrightarrow> foldl (scan_key cl) res kps = res @ new_entries cl res kps"
proof (induction kps arbitrary: res)
  case Nil
  then show ?case by (simp add: new_entries_def)
next
  case (Cons kp kps)
  let ?res' = "scan_key cl res kp"
  have same: "has_key ?res' (fst q) = has_key res (fst q)" if "q \<in> set kps" for q
  proof -
    have "fst q \<in> set (map fst kps)" using that by simp
    moreover have "fst kp \<notin> set (map fst kps)" using Cons.prems by simp
    ultimately have "fst q \<noteq> fst kp" by metis
    then show ?thesis by (simp add: scan_key_eq [of cl res kp] has_key_snoc)
  qed
  have "filter (\<lambda>q. \<not> has_key ?res' (fst q) \<and> value_on_line cl q \<noteq> None) kps
      = filter (\<lambda>q. \<not> has_key res (fst q) \<and> value_on_line cl q \<noteq> None) kps"
    by (rule filter_cong [OF refl]) (simp add: same)
  then have "new_entries cl ?res' kps = new_entries cl res kps"
    by (simp only: new_entries_def)
  moreover have "foldl (scan_key cl) ?res' kps = ?res' @ new_entries cl ?res' kps"
    using Cons by simp
  ultimately have "foldl (scan_key cl) res (kp # kps) = ?res' @ new_entries cl res kps"
    by simp
  then show ?case
    by (simp add: new_entries_Cons scan_key_eq [of cl res kp])
qed

lemma patterns_distinct: "distinct (map fst patterns)"
  by (simp add: patterns_def)

lemma scan_line_eq: "scan_line res line = res @ new_entries (clean line) res patterns"
  by (simp add: scan_line_def foldl_scan_key patterns_distinct)

lemma fill_key_eq: "fill_key res kp = (if has_key res (fst kp) then res else res @ [(fst kp, None)])"
  by (simp add: fill_key_def store_def)

lemma foldl_fill_key:
  "distinct (map fst kps) \<Longrightarrow>
   foldl fill_key res kps
     = res @ map (\<lambda>kp. (fst kp, None)) (filter (\<lambda>kp. \<not> has_key res (fst kp)) kps)"
proof (induction kps arbitrary: res)
  case Nil
  then show ?case by simp
next
  case (Cons kp kps)
  let ?res' = "fill_key res kp"
  have same: "has_key ?res' (fst q) = has_key res (fst q)" if "q \<in> set kps" for q
  proof -
    have "fst q \<in> set (map fst kps)" using that by simp
    moreover have "fst kp \<notin> set (map fst kps)" using Cons.prems by simp
    ultimately have "fst q \<noteq> fst kp" by metis
    then show ?thesis by (simp add: fill_key_eq [of res kp] has_key_snoc)
  qed
  have "filter (\<lambda>q. \<not> has_key ?res' (fst q)) kps = filter (\<lambda>q. \<not> has_key res (fst q)) kps"
    by (rule filter_cong [OF refl]) (simp add: same)
  moreover have "foldl fill_key ?res' kps
        = ?res' @ map (\<lambda>kp. (fst kp, None)) (filter (\<lambda>kp. \<not> has_key ?res' (fst kp)) kps)"
    using Cons by simp
  ultimately have "foldl fill_key res (kp # kps)
        = ?res' @ map (\<lambda>kp. (fst kp, None)) (filter (\<lambda>kp. \<not> has_key res (fst kp)) kps)"
    by simp
  then show ?case
    by (simp add: fill_key_eq [of res kp])
qed

lemma fill_missing_eq:
  "fill_missing res =
     res @ map (\<lambda>kp. (fst kp, None)) (filter (\<lambda>kp. \<not> has_key res (fst kp)) patterns)"
proof -
  have "fill_missing res = foldl fill_key res patterns"
    unfolding fill_missing_def fill_key_def ..
  then show ?thesis by (simp add: foldl_fill_key patterns_distinct)
qed


lemma has_key_map_of: "has_key res k = (map_of res k \<noteq> None)"
  by (simp add: has_key_def map_of_eq_None_iff)

lemma map_of_keyed:
  "distinct (map fst kps) \<Longrightarrow> (k, p) \<in> set kps \<Longrightarrow>
   map_of (map (\<lambda>kp. (fst kp, f kp)) (filter P kps)) k = (if P (k, p) then Some (f (k, p)) else None)"
proof (induction kps)
  case Nil
  then show ?case by simp
next
  case (Cons q kps)
  show ?case
  proof (cases "q = (k, p)")
    case True
    have "k \<notin> fst ` set kps" using Cons.prems True by auto
    then have "map_of (map (\<lambda>kp. (fst kp, f kp)) (filter P kps)) k = None"
      by (auto simp: map_of_eq_None_iff image_iff)
    with True show ?thesis by simp
  next
    case False
    then have in_tl: "(k, p) \<in> set kps" using Cons.prems by simp
    then have "k \<in> set (map fst kps)" by force
    moreover have "fst q \<notin> set (map fst kps)" using Cons.prems by simp
    ultimately have "fst q \<noteq> k" by metis
    then show ?thesis using Cons in_tl by simp
  qed
qed

lemma map_of_keyed_None:
  "k \<notin> fst ` set kps \<Longrightarrow> map_of (map (\<lambda>kp. (fst kp, f kp)) (filter P kps)) k = None"
  by (auto simp: map_of_eq_None_iff image_iff)

lemma lookup_scan_line:
  assumes "(k, p) \<in> set patterns"
  shows "map_of (scan_line res line) k =
           (case map_of res k of
              Some v \<Rightarrow> Some v
            | None \<Rightarrow> map_option Some (value_on_line (clean line) (k, p)))"
proof -
  have "map_of (new_entries (clean line) res patterns) k =
          (if \<not> has_key res k \<and> value_on_line (clean line) (k, p) \<noteq> None
           then Some (value_on_line (clean line) (k, p)) else None)"
    unfolding new_entries_def
    using map_of_keyed [OF patterns_distinct assms,
        of "\<lambda>kp. value_on_line (clean line) kp"
           "\<lambda>kp. \<not> has_key res (fst kp) \<and> value_on_line (clean line) kp \<noteq> None"]
    by simp
  then show ?thesis
    by (auto simp: scan_line_eq map_add_def has_key_map_of split: option.splits)
qed

lemma lookup_scan:
  assumes "(k, p) \<in> set patterns"
  shows "map_of (foldl scan_line res lines) k =
           (case map_of res k of
              Some v \<Rightarrow> Some v
            | None \<Rightarrow> map_option Some (first_value lines (k, p)))"
proof (induction lines arbitrary: res)
  case Nil
  then show ?case by (simp split: option.splits)
next
  case (Cons l ls)
  show ?case
    by (simp add: Cons lookup_scan_line [OF assms] split: option.splits)
qed

lemma lookup_fill_missing:
  assumes "(k, p) \<in> set patterns"
  shows "map_of (fill_missing res) k = (case map_of res k of Some v \<Rightarrow> Some v | None \<Rightarrow> Some None)"
proof -
  have "map_of (map (\<lambda>kp. (fst kp, None)) (filter (\<lambda>kp. \<not> has_key res (fst kp)) patterns)) k =
          (if \<not> has_key res k then Some None else None)"
    using map_of_keyed [OF patterns_distinct assms, of "\<lambda>kp. None" "\<lambda>kp. \<not> has_key res (fst kp)"]
    by simp
  then show ?thesis
    by (auto simp: fill_missing_eq map_add_def has_key_map_of split: option.splits)
qed

lemma lookup_extract:
  assumes "(k, p) \<in> set patterns"
  shows "map_of (extract_health_values text) k = Some (first_value (splitlines text) (k, p))"
  by (simp add: extract_health_values_def lookup_fill_missing [OF assms] lookup_scan [OF assms]
      split: option.splits)

lemma value_on_line_nonempty: "value_on_line cl kp = Some v \<Longrightarrow> v \<noteq> []"
  by (auto simp: value_on_line_def replace_comma_def
      split: option.splits prod.splits if_splits
      dest: search_nonempty [OF _ num_pat_nonempty] search_nonempty [OF _ bp_pat_nonempty])

section \<open>Lines\<close>

lemma lines_acc_no_break:
  "l \<in> set (lines_acc cur cs) \<Longrightarrow> \<forall>c\<in>set cur. \<not> is_linebreak c \<Longrightarrow> \<forall>c\<in>set l. \<not> is_linebreak c"
proof (induction cur cs arbitrary: l rule: lines_acc.induct)
  case (1 cur)
  then show ?case by (auto split: if_splits)
next
  case (2 cur c)
  then show ?case by (auto split: if_splits)
next
  case (3 cur c d cs)
  from "3.prems" consider
      (crlf) "c = CHR 0x0D" "d = CHR 0x0A" "l = cur \<or> l \<in> set (lines_acc [] cs)"
    | (brk) "\<not> (c = CHR 0x0D \<and> d = CHR 0x0A)" "is_linebreak c" "l = cur \<or> l \<in> set (lines_acc [] (d # cs))"
    | (go) "\<not> (c = CHR 0x0D \<and> d = CHR 0x0A)" "\<not> is_linebreak c" "l \<in> set (lines_acc (cur @ [c]) (d # cs))"
    by (auto simp del: lines_acc.simps(2) split: if_splits)
  then show ?case
  proof cases
    case crlf
    then show ?thesis using "3.IH"(1) [of l] "3.prems"(2) by auto
  next
    case brk
    then show ?thesis using "3.IH"(2) [of l] "3.prems"(2) by auto
  next
    case go
    then show ?thesis using "3.IH"(3) [of l] "3.prems"(2) by auto
  qed
qed

lemma lines_acc_single:
  "\<forall>c\<in>set cs. \<not> is_linebreak c \<Longrightarrow> cur @ cs \<noteq> [] \<Longrightarrow> lines_acc cur cs = [cur @ cs]"
proof (induction cur cs rule: lines_acc.induct)
  case (3 cur c d cs)
  have "\<not> is_linebreak (CHR 0x0D)  \<Longrightarrow> False" by (simp add: is_linebreak_def code_def)
  with 3 show ?case by auto
qed auto

lemma splitlines_line_alone:
  assumes "l \<in> set (splitlines doc)" "l \<noteq> []"
  shows "splitlines l = [l]"
proof -
  have "\<forall>c\<in>set l. \<not> is_linebreak c"
    using assms(1) lines_acc_no_break [where cur = "[]" and cs = doc and l = l]
    by (simp add: splitlines_def)
  then show ?thesis
    using assms(2) lines_acc_single [where cur = "[]" and cs = l]
    by (simp add: splitlines_def)
qed

lemma value_on_empty: "\<forall>kp\<in>set patterns. value_on_line [] kp = None"
  by code_simp

lemma clean_empty: "clean [] = []"
  by code_simp

lemma first_value_append:
  "first_value (xs @ ys) kp =
     (case first_value xs kp of Some v \<Rightarrow> Some v | None \<Rightarrow> first_value ys kp)"
  by (induction xs) (auto split: option.splits)

lemma first_value_None:
  "\<forall>l\<in>set xs. value_on_line (clean l) kp = None \<Longrightarrow> first_value xs kp = None"
  by (induction xs) auto

lemma lookup_scan_empty:
  "kp \<in> set patterns \<Longrightarrow>
   map_of (foldl scan_line [] ls) (fst kp) = map_option Some (first_value ls kp)"
  using lookup_scan [of "fst kp" "snd kp" "[]" ls] by simp

section \<open>The keys and values of the result\<close>

lemma keys_patterns: "map fst patterns = metric_names"
  by (simp add: patterns_def metric_names_def)

lemma keys_new_entries:
  "map fst (new_entries cl res kps)
     = map fst (filter (\<lambda>kp. \<not> has_key res (fst kp) \<and> value_on_line cl kp \<noteq> None) kps)"
  by (simp add: new_entries_def comp_def)

lemma scan_line_inv:
  assumes "distinct (map fst res)" "set (map fst res) \<subseteq> set (map fst patterns)"
    and "\<forall>kv\<in>set res. \<exists>v. snd kv = Some v \<and> v \<noteq> []"
  shows "distinct (map fst (scan_line res line))
       \<and> set (map fst (scan_line res line)) \<subseteq> set (map fst patterns)
       \<and> (\<forall>kv\<in>set (scan_line res line). \<exists>v. snd kv = Some v \<and> v \<noteq> [])"
proof -
  let ?P = "\<lambda>kp. \<not> has_key res (fst kp) \<and> value_on_line (clean line) kp \<noteq> None"
  have d: "distinct (map fst (filter ?P patterns))"
    using patterns_distinct by (rule distinct_map_filter)
  have disj: "set (map fst res) \<inter> set (map fst (filter ?P patterns)) = {}"
    by (force simp: has_key_def)
  have vals: "\<exists>v. snd kv = Some v \<and> v \<noteq> []" if "kv \<in> set (new_entries (clean line) res patterns)" for kv
    using that value_on_line_nonempty by (fastforce simp: new_entries_def)
  have sub: "set (map fst (filter ?P patterns)) \<subseteq> set (map fst patterns)"
    by auto
  have 1: "distinct (map fst (scan_line res line))"
    using assms(1) d disj by (simp only: scan_line_eq map_append keys_new_entries distinct_append)
  have 2: "set (map fst (scan_line res line)) \<subseteq> set (map fst patterns)"
    using assms(2) sub by (simp only: scan_line_eq map_append keys_new_entries set_append) simp
  have 3: "\<forall>kv\<in>set (scan_line res line). \<exists>v. snd kv = Some v \<and> v \<noteq> []"
    using assms(3) vals by (auto simp: scan_line_eq)
  from 1 2 3 show ?thesis by blast
qed

lemma scan_inv:
  assumes "distinct (map fst res)" "set (map fst res) \<subseteq> set (map fst patterns)"
    and "\<forall>kv\<in>set res. \<exists>v. snd kv = Some v \<and> v \<noteq> []"
  shows "distinct (map fst (foldl scan_line res ls))
       \<and> set (map fst (foldl scan_line res ls)) \<subseteq> set (map fst patterns)
       \<and> (\<forall>kv\<in>set (foldl scan_line res ls). \<exists>v. snd kv = Some v \<and> v \<noteq> [])"
  using assms
proof (induction ls arbitrary: res)
  case Nil
  then show ?case by simp
next
  case (Cons l ls)
  from scan_line_inv [OF Cons.prems, of l] show ?case
    using Cons.IH [of "scan_line res l"] by simp
qed

lemma scan_empty_inv:
  "distinct (map fst (foldl scan_line [] ls))
   \<and> set (map fst (foldl scan_line [] ls)) \<subseteq> set (map fst patterns)
   \<and> (\<forall>kv\<in>set (foldl scan_line [] ls). \<exists>v. snd kv = Some v \<and> v \<noteq> [])"
  using scan_inv [of "[]" ls] by simp

lemma extract_keys:
  "distinct (map fst (extract_health_values doc))
   \<and> set (map fst (extract_health_values doc)) = set (map fst patterns)"
proof -
  let ?R = "foldl scan_line [] (splitlines doc)"
  let ?F = "filter (\<lambda>kp. \<not> has_key ?R (fst kp)) patterns"
  have keys: "map fst (extract_health_values doc) = map fst ?R @ map fst ?F"
    by (simp add: extract_health_values_def fill_missing_eq comp_def)
  have d: "distinct (map fst ?F)"
    using patterns_distinct by (rule distinct_map_filter)
  have disj: "set (map fst ?R) \<inter> set (map fst ?F) = {}"
    by (force simp: has_key_def)
  have sub: "set (map fst ?R) \<subseteq> set (map fst patterns)" "distinct (map fst ?R)"
    using scan_empty_inv [of "splitlines doc"] by simp_all
  have "set (map fst ?R) \<union> set (map fst ?F) = set (map fst patterns)"
    using sub(1) by (auto simp: has_key_def)
  then show ?thesis
    using d disj sub(2) by (simp only: keys map_append distinct_append set_append)
qed

section \<open>The order of the entries\<close>

lemma first_line_lt: "first_line ls kp = Some i \<Longrightarrow> i < length ls"
  by (induction ls arbitrary: i) (auto split: if_splits)

lemma first_line_snoc:
  "first_line (ls @ [l]) kp =
     (case first_line ls kp of
        Some i \<Rightarrow> Some i
      | None \<Rightarrow> if value_on_line (clean l) kp \<noteq> None then Some (length ls) else None)"
  by (induction ls) (auto split: option.splits)

lemma first_line_None_iff: "first_line ls kp = None \<longleftrightarrow> first_value ls kp = None"
  by (induction ls) (auto split: option.splits)

lemma has_key_scan:
  "kp \<in> set patterns \<Longrightarrow> has_key (foldl scan_line [] ls) (fst kp) \<longleftrightarrow> first_line ls kp \<noteq> None"
  by (simp add: has_key_map_of lookup_scan_empty first_line_None_iff)

lemma resolved_on_snoc_old: "i < length ls \<Longrightarrow> resolved_on (ls @ [l]) i = resolved_on ls i"
proof -
  assume i: "i < length ls"
  have "(first_line (ls @ [l]) kp = Some i) = (first_line ls kp = Some i)" for kp
    using i first_line_lt [of ls kp] by (auto simp: first_line_snoc split: option.splits)
  then show ?thesis using i by (simp add: resolved_on_def nth_append)
qed

lemma resolved_on_snoc_new:
  "resolved_on (ls @ [l]) (length ls) = new_entries (clean l) (foldl scan_line [] ls) patterns"
proof -
  have "(first_line (ls @ [l]) kp = Some (length ls))
        = (\<not> has_key (foldl scan_line [] ls) (fst kp) \<and> value_on_line (clean l) kp \<noteq> None)"
    if "kp \<in> set patterns" for kp
    using first_line_lt [of ls kp "length ls"] has_key_scan [OF that, of ls]
    by (auto simp: first_line_snoc split: option.splits)
  then have "filter (\<lambda>kp. first_line (ls @ [l]) kp = Some (length ls)) patterns
           = filter (\<lambda>kp. \<not> has_key (foldl scan_line [] ls) (fst kp) \<and> value_on_line (clean l) kp \<noteq> None) patterns"
    by (rule filter_cong [OF refl])
  then show ?thesis by (simp add: resolved_on_def new_entries_def)
qed

lemma scan_in_order: "foldl scan_line [] ls = concat (map (resolved_on ls) [0..<length ls])"
proof (induction ls rule: rev_induct)
  case Nil
  then show ?case by simp
next
  case (snoc l ls)
  have old: "map (resolved_on (ls @ [l])) [0..<length ls] = map (resolved_on ls) [0..<length ls]"
    by (rule map_cong [OF refl]) (simp add: resolved_on_snoc_old)
  have "foldl scan_line [] (ls @ [l]) = scan_line (foldl scan_line [] ls) l"
    by simp
  also have "\<dots> = foldl scan_line [] ls @ resolved_on (ls @ [l]) (length ls)"
    by (simp only: scan_line_eq resolved_on_snoc_new)
  also have "\<dots> = concat (map (resolved_on (ls @ [l])) [0..<length ls])
                    @ resolved_on (ls @ [l]) (length ls)"
    by (simp only: snoc.IH old)
  also have "\<dots> = concat (map (resolved_on (ls @ [l])) [0..<length (ls @ [l])])"
    by simp
  finally show ?case .
qed

section \<open>Labels are bounded by word boundaries\<close>

lemma ends_bounded:
  "e \<in> set (ends ic (bounded rs) s a) \<Longrightarrow> at_boundary s a \<and> at_boundary s e"
  by (auto simp: bounded_def split: if_splits)

lemma patterns_bounded: "kp \<in> set patterns \<Longrightarrow> \<exists>rs. snd kp = bounded rs"
  by (auto simp: patterns_def)

lemma label_match_bounded:
  assumes "kp \<in> set patterns" "search_from True (snd kp) s pos = Some (a, b)"
  shows "at_boundary s a \<and> at_boundary s b"
proof -
  from assms(1) obtain rs where rs: "snd kp = bounded rs" using patterns_bounded by blast
  have "b \<in> set (ends True (snd kp) s a)"
    using search_from_SomeD [OF assms(2)] by simp
  then show ?thesis unfolding rs by (rule ends_bounded)
qed

lemma not_word_period: "\<not> is_word CHR ''.''"
  by (simp add: is_word_def code_def)

section \<open>Case folding\<close>














section \<open>The text of a match\<close>

lemma slice_split: "a \<le> m \<Longrightarrow> m \<le> b \<Longrightarrow> slice s a b = slice s a m @ slice s m b"
proof -
  assume le: "a \<le> m" "m \<le> b"
  have "take (b - a) (drop a s) = take (m - a) (drop a s) @ take (b - m) (drop (m - a) (drop a s))"
    using le take_add [of "m - a" "b - m" "drop a s"] by simp
  then show ?thesis using le by (simp add: slice_def)
qed

lemma length_slice: "b \<le> length s \<Longrightarrow> length (slice s a b) = b - a"
  by (simp add: slice_def)

lemma slice_one: "i < length s \<Longrightarrow> slice s i (i + 1) = [s ! i]"
  by (simp add: slice_def take_Suc_conv_app_nth [of 0] hd_drop_conv_nth take_Suc)

lemma take_takeWhile: "n \<le> length (takeWhile P xs) \<Longrightarrow> take n xs = take n (takeWhile P xs)"
proof -
  assume n: "n \<le> length (takeWhile P xs)"
  have "take n xs = take n (takeWhile P xs @ dropWhile P xs)" by simp
  also have "\<dots> = take n (takeWhile P xs)" using n by (simp only: take_append) simp
  finally show ?thesis .
qed

lemma run_chars:
  assumes "i \<le> j" "j \<le> i + run ic a s i" "i \<le> length s"
  shows "list_all (atom_match ic a) (slice s i j) \<and> j \<le> length s"
proof -
  let ?P = "atom_match ic a"
  have n: "j - i \<le> length (takeWhile ?P (drop i s))" using assms by (simp add: run_def)
  then have "slice s i j = take (j - i) (takeWhile ?P (drop i s))"
    unfolding slice_def by (rule take_takeWhile)
  then have "set (slice s i j) \<subseteq> set (takeWhile ?P (drop i s))"
    using set_take_subset by metis
  then have 1: "list_all ?P (slice s i j)"
    by (auto simp: list_all_iff dest: set_takeWhileD)
  have "length (takeWhile ?P (drop i s)) \<le> length s - i"
    by (rule order_trans [OF length_takeWhile_le]) simp
  with n assms(1,3) have 2: "j \<le> length s" by simp
  from 1 2 show ?thesis ..
qed


lemma num_pat_endsD:
  assumes "b \<in> set (ends False num_pat s a)" "a \<le> length s"
  shows "\<exists>e1 e2. a < e1 \<and> e1 \<le> e2 \<and> e2 \<le> e1 + 1 \<and> e2 \<le> b \<and> b \<le> length s
           \<and> list_all is_digit (slice s a e1)
           \<and> list_all (\<lambda>c. c \<in> set ''.,'') (slice s e1 e2)
           \<and> list_all is_digit (slice s e2 b)
           \<and> at_boundary s a \<and> at_boundary s b"
proof -
  from assms(1) obtain e1 e2 where
      ba: "at_boundary s a" and bb: "at_boundary s b"
      and e1: "a + 1 \<le> e1" "e1 \<le> a + run False Digit s a"
      and e2: "e1 \<le> e2" "e2 \<le> e1 + run False (OneOf ''.,'') s e1" "e2 \<le> e1 + 1"
      and e3: "e2 \<le> b" "b \<le> e2 + run False Digit s e2"
    unfolding num_pat_def
    by (auto simp: set_ends_Rep simp del: ends.simps(2) split: if_splits)
  have d1: "list_all (atom_match False Digit) (slice s a e1) \<and> e1 \<le> length s"
    using e1 assms(2) by (intro run_chars) simp_all
  then have d2: "list_all (atom_match False (OneOf ''.,'')) (slice s e1 e2) \<and> e2 \<le> length s"
    using e2 by (intro run_chars) simp_all
  then have d3: "list_all (atom_match False Digit) (slice s e2 b) \<and> b \<le> length s"
    using e3 by (intro run_chars) simp_all
  have "atom_match False Digit = is_digit" "atom_match False (OneOf ''.,'') = (\<lambda>c. c \<in> set ''.,'')"
    by (rule ext, simp)+
  with d1 d2 d3 e1 e2 e3 ba bb show ?thesis
    by (intro exI [of _ e1] exI [of _ e2]) simp
qed

lemma bp_pat_endsD:
  assumes "b \<in> set (ends False bp_pat s a)" "a \<le> length s"
  shows "\<exists>e1. a + 2 \<le> e1 \<and> e1 \<le> a + 3 \<and> e1 + 3 \<le> b \<and> b \<le> e1 + 4 \<and> b \<le> length s
           \<and> list_all is_digit (slice s a e1) \<and> s ! e1 = CHR ''/''
           \<and> list_all is_digit (slice s (e1 + 1) b)"
proof -
  from assms(1) obtain e1 where
      e1: "a + 2 \<le> e1" "e1 \<le> a + run False Digit s a" "e1 \<le> a + 3"
      and sl: "e1 < length s" "s ! e1 = CHR ''/''"
      and e3: "e1 + 1 + 2 \<le> b" "b \<le> e1 + 1 + run False Digit s (e1 + 1)" "b \<le> e1 + 1 + 3"
    unfolding bp_pat_def
    by (auto simp: set_ends_Rep simp del: ends.simps(2) split: if_splits)
  have d1: "list_all (atom_match False Digit) (slice s a e1) \<and> e1 \<le> length s"
    using e1 assms(2) by (intro run_chars) simp_all
  have d3: "list_all (atom_match False Digit) (slice s (e1 + 1) b) \<and> b \<le> length s"
    using e3 sl by (intro run_chars) simp_all
  have "atom_match False Digit = is_digit"
    by (rule ext) simp
  with d1 d3 e1 e3 sl show ?thesis
    by (intro exI [of _ e1]) simp
qed

lemma takeWhile_all: "list_all P xs \<Longrightarrow> takeWhile P xs = xs"
  by (induction xs) auto

lemma dropWhile_all: "list_all P xs \<Longrightarrow> dropWhile P xs = []"
  by (induction xs) auto

lemma takeWhile_stop: "list_all P xs \<Longrightarrow> \<not> P y \<Longrightarrow> takeWhile P (xs @ y # ys) = xs"
  by (induction xs) auto

lemma dropWhile_stop: "list_all P xs \<Longrightarrow> \<not> P y \<Longrightarrow> dropWhile P (xs @ y # ys) = y # ys"
  by (induction xs) auto

lemma not_digit_marks:
  "\<not> is_digit CHR ''.''" "\<not> is_digit CHR '',''" "\<not> is_digit CHR ''/''"
  by (simp_all add: is_digit_def code_def)

lemma replace_comma_digits: "list_all is_digit ds \<Longrightarrow> replace_comma ds = ds"
proof -
  assume "list_all is_digit ds"
  then have "\<forall>c\<in>set ds. c \<noteq> CHR '',''" using not_digit_marks(2) by (auto simp: list_all_iff)
  then show ?thesis unfolding replace_comma_def by (induction ds) auto
qed

lemma decimal_shape_parts:
  assumes "d1 \<noteq> []" "list_all is_digit d1" "list_all (\<lambda>c. c \<in> set ''.,'') sep" "length sep \<le> 1"
    and "list_all is_digit d2"
  shows "decimal_shape (replace_comma (d1 @ sep @ d2))"
proof (cases sep)
  case Nil
  have "list_all is_digit (d1 @ d2)" using assms(2,5) by simp
  then show ?thesis
    using assms(1) Nil
    by (simp add: replace_comma_digits decimal_shape_def takeWhile_all dropWhile_all
        del: list_all_append)
next
  case (Cons c cs)
  then have cs: "cs = []" and c: "c = CHR ''.'' \<or> c = CHR '',''" using assms(3,4) by auto
  have "replace_comma (d1 @ sep @ d2) = d1 @ CHR ''.'' # d2"
    using assms(2,5) c cs Cons replace_comma_digits
    by (auto simp: replace_comma_def)
  then show ?thesis
    using assms(1,2,5) not_digit_marks(1)
    by (simp add: decimal_shape_def takeWhile_stop dropWhile_stop)
qed

lemma ratio_shape_parts:
  assumes "list_all is_digit d1" "length d1 = 2 \<or> length d1 = 3"
    and "list_all is_digit d2" "length d2 = 2 \<or> length d2 = 3"
  shows "ratio_shape (d1 @ CHR ''/'' # d2)"
  using assms not_digit_marks(3)
  by (simp add: ratio_shape_def takeWhile_stop dropWhile_stop)

lemma num_search_shape:
  assumes "search_from False num_pat s pos = Some (a, b)"
  shows "decimal_shape (replace_comma (slice s a b))"
proof -
  from search_from_SomeD [OF assms] have "b \<in> set (ends False num_pat s a)" "a \<le> length s"
    by simp_all
  from num_pat_endsD [OF this] obtain e1 e2 where
    *: "a < e1" "e1 \<le> e2" "e2 \<le> e1 + 1" "e2 \<le> b" "b \<le> length s"
       "list_all is_digit (slice s a e1)" "list_all (\<lambda>c. c \<in> set ''.,'') (slice s e1 e2)"
       "list_all is_digit (slice s e2 b)"
    by blast
  have split: "slice s a b = slice s a e1 @ slice s e1 e2 @ slice s e2 b"
    using * slice_split [of a e1 b s] slice_split [of e1 e2 b s] by simp
  have "slice s a e1 \<noteq> []" "length (slice s e1 e2) \<le> 1"
    using * by (simp_all add: slice_def)
  then show ?thesis
    unfolding split using * by (intro decimal_shape_parts) simp_all
qed

lemma bp_search_shape:
  assumes "search_from False bp_pat s pos = Some (a, b)"
  shows "ratio_shape (slice s a b)"
proof -
  from search_from_SomeD [OF assms] have "b \<in> set (ends False bp_pat s a)" "a \<le> length s"
    by simp_all
  from bp_pat_endsD [OF this] obtain e1 where
    *: "a + 2 \<le> e1" "e1 \<le> a + 3" "e1 + 3 \<le> b" "b \<le> e1 + 4" "b \<le> length s"
       "list_all is_digit (slice s a e1)" "s ! e1 = CHR ''/''"
       "list_all is_digit (slice s (e1 + 1) b)"
    by blast
  have "slice s a b = slice s a e1 @ slice s e1 (e1 + 1) @ slice s (e1 + 1) b"
    using * slice_split [of a e1 b s] slice_split [of e1 "e1 + 1" b s] by simp
  then have split: "slice s a b = slice s a e1 @ CHR ''/'' # slice s (e1 + 1) b"
    using * slice_one [of e1 s] by simp
  have "length (slice s a e1) = e1 - a" "length (slice s (e1 + 1) b) = b - (e1 + 1)"
    using * by (simp_all add: length_slice)
  then show ?thesis
    unfolding split using * by (intro ratio_shape_parts) auto
qed

lemma value_on_line_shape:
  "value_on_line cl kp = Some v \<Longrightarrow>
   (if fst kp = ''Blood Pressure'' then ratio_shape v else decimal_shape v)"
  by (auto simp: value_on_line_def split: option.splits prod.splits if_splits
      dest: num_search_shape bp_search_shape)

lemma scan_values:
  "kv \<in> set (foldl scan_line res ls) \<Longrightarrow>
   kv \<in> set res \<or> (\<exists>kp\<in>set patterns. \<exists>l\<in>set ls. kv = (fst kp, value_on_line (clean l) kp))"
proof (induction ls arbitrary: res)
  case Nil
  then show ?case by simp
next
  case (Cons l ls)
  from Cons.IH [of "scan_line res l"] Cons.prems
  have "kv \<in> set (scan_line res l)
        \<or> (\<exists>kp\<in>set patterns. \<exists>l\<in>set ls. kv = (fst kp, value_on_line (clean l) kp))"
    by simp
  then show ?case
    by (auto simp: scan_line_eq new_entries_def)
qed

lemma extract_values:
  assumes "(k, Some v) \<in> set (extract_health_values doc)"
  shows "\<exists>kp\<in>set patterns. \<exists>l\<in>set (splitlines doc). k = fst kp \<and> value_on_line (clean l) kp = Some v"
proof -
  from assms have "(k, Some v) \<in> set (foldl scan_line [] (splitlines doc))"
    by (auto simp: extract_health_values_def fill_missing_eq)
  from scan_values [OF this] obtain kp l where
    "kp \<in> set patterns" "l \<in> set (splitlines doc)"
    "(k, Some v) = (fst kp, value_on_line (clean l) kp)"
    by auto
  then show ?thesis by (intro bexI [of _ kp] bexI [of _ l]) simp_all
qed

section \<open>Runs of an atom\<close>

lemma run_ge:
  assumes "i \<le> j" "j \<le> length s" "list_all (atom_match ic a) (slice s i j)"
  shows "j \<le> i + run ic a s i"
proof -
  let ?P = "atom_match ic a"
  have "?P (drop i s ! k)" if "k < j - i" for k
  proof -
    have "slice s i j ! k = drop i s ! k" using that by (simp add: slice_def)
    moreover have "k < length (slice s i j)" using that assms(2) by (simp add: slice_def)
    ultimately show ?thesis using assms(3) by (metis list_all_length)
  qed
  moreover have "j - i \<le> length (drop i s)" using assms(2) by simp
  ultimately have "j - i \<le> length (takeWhile ?P (drop i s))"
    by (rule length_takeWhile_less_P_nth)
  then show ?thesis using assms(1) by (simp add: run_def)
qed

lemma run_stop:
  "i + run ic a s i < length s \<Longrightarrow> \<not> atom_match ic a (s ! (i + run ic a s i))"
proof -
  assume lt: "i + run ic a s i < length s"
  let ?P = "atom_match ic a"
  have "length (takeWhile ?P (drop i s)) < length (drop i s)" using lt by (simp add: run_def)
  then have "\<not> ?P (drop i s ! length (takeWhile ?P (drop i s)))"
    by (rule nth_length_takeWhile)
  then show ?thesis using lt by (simp add: run_def)
qed

lemma run_zero: "i \<ge> length s \<or> \<not> atom_match ic a (s ! i) \<Longrightarrow> run ic a s i = 0"
proof -
  assume h: "i \<ge> length s \<or> \<not> atom_match ic a (s ! i)"
  show ?thesis
  proof (cases "i \<ge> length s")
    case True
    then show ?thesis by (simp add: run_def)
  next
    case False
    then have "drop i s = s ! i # drop (Suc i) s" by (simp add: Cons_nth_drop_Suc)
    then show ?thesis using h False by (simp add: run_def)
  qed
qed

lemma run_pos: "i < length s \<Longrightarrow> atom_match ic a (s ! i) \<Longrightarrow> 1 \<le> run ic a s i"
proof -
  assume h: "i < length s" "atom_match ic a (s ! i)"
  then have "drop i s = s ! i # drop (Suc i) s" by (simp add: Cons_nth_drop_Suc)
  then show ?thesis using h by (simp add: run_def)
qed

lemma run_nth:
  assumes "i \<le> j" "j < i + run ic a s i"
  shows "j < length s \<and> atom_match ic a (s ! j)"
proof -
  let ?P = "atom_match ic a"
  have k: "j - i < length (takeWhile ?P (drop i s))" using assms by (simp add: run_def)
  then have "takeWhile ?P (drop i s) ! (j - i) = drop i s ! (j - i)" by (rule takeWhile_nth)
  moreover have "?P (takeWhile ?P (drop i s) ! (j - i))"
    using k by (metis nth_mem set_takeWhileD)
  moreover have "length (takeWhile ?P (drop i s)) \<le> length s - i"
    by (rule order_trans [OF length_takeWhile_le]) simp
  ultimately show ?thesis using k assms(1) by simp
qed

lemma takeWhile_dropWhile_same: "takeWhile P (dropWhile P xs) = []"
  by (induction xs) auto

lemma run_inside:
  assumes "k \<le> run ic a s i"
  shows "run ic a s (i + k) = run ic a s i - k"
proof -
  let ?P = "atom_match ic a"
  let ?xs = "drop i s"
  have k: "k \<le> length (takeWhile ?P ?xs)" using assms by (simp add: run_def)
  have "drop k ?xs = drop k (takeWhile ?P ?xs @ dropWhile ?P ?xs)" by simp
  also have "\<dots> = drop k (takeWhile ?P ?xs) @ dropWhile ?P ?xs" using k by (simp only: drop_append) simp
  finally have "takeWhile ?P (drop k ?xs) = takeWhile ?P (drop k (takeWhile ?P ?xs) @ dropWhile ?P ?xs)"
    by simp
  also have "\<dots> = drop k (takeWhile ?P ?xs) @ takeWhile ?P (dropWhile ?P ?xs)"
    by (rule takeWhile_append2) (auto dest: in_set_dropD set_takeWhileD)
  also have "takeWhile ?P (dropWhile ?P ?xs) = []"
    by (rule takeWhile_dropWhile_same)
  finally have "length (takeWhile ?P (drop k ?xs)) = length (takeWhile ?P ?xs) - k" by simp
  then show ?thesis by (simp add: run_def add.commute)
qed


section \<open>Number tokens and \<open>num_pat\<close>\<close>

lemma token_shape_parts:
  assumes "d1 \<noteq> []" "list_all is_digit d1" "list_all (\<lambda>c. c \<in> set ''.,'') sep" "length sep \<le> 1"
    and "list_all is_digit d2"
  shows "token_shape (d1 @ sep @ d2)"
proof (cases sep)
  case Nil
  have "list_all is_digit (d1 @ d2)" using assms(2,5) by simp
  then show ?thesis
    using assms(1) Nil
    by (simp add: token_shape_def takeWhile_all dropWhile_all del: list_all_append)
next
  case (Cons c cs)
  then have cs: "cs = []" and c: "c = CHR ''.'' \<or> c = CHR '',''" using assms(3,4) by auto
  then have "\<not> is_digit c" using not_digit_marks by auto
  then show ?thesis
    using assms(1,2,5) c cs Cons
    by (auto simp: token_shape_def takeWhile_stop dropWhile_stop)
qed

lemma token_shapeD:
  assumes "token_shape v"
  shows "\<exists>d1 sep d2. v = d1 @ sep @ d2 \<and> d1 \<noteq> [] \<and> list_all is_digit d1
           \<and> list_all (\<lambda>c. c \<in> set ''.,'') sep \<and> length sep \<le> 1 \<and> list_all is_digit d2"
proof -
  let ?d1 = "takeWhile is_digit v" and ?rest = "dropWhile is_digit v"
  have v: "v = ?d1 @ ?rest" by simp
  have d1: "?d1 \<noteq> []" "list_all is_digit ?d1"
    using assms by (auto simp: token_shape_def Let_def list_all_iff dest: set_takeWhileD)
  show ?thesis
  proof (cases ?rest)
    case Nil
    have "v = ?d1 @ [] @ []"
      using Nil by (metis append_Nil2 takeWhile_dropWhile_id)
    with d1 show ?thesis by (intro exI [of _ ?d1] exI [of _ "[]"]) simp
  next
    case (Cons c r)
    then have "c \<in> set ''.,''" "list_all is_digit r"
      using assms by (auto simp: token_shape_def Let_def)
    moreover have "v = ?d1 @ [c] @ r"
      using Cons by (metis append_Cons append_Nil takeWhile_dropWhile_id)
    ultimately show ?thesis
      using d1 by (intro exI [of _ ?d1] exI [of _ "[c]"] exI [of _ r]) simp
  qed
qed

lemma slice_append_parts:
  assumes "slice s a b = xs @ ys" "a \<le> b" "b \<le> length s"
  shows "slice s a (a + length xs) = xs \<and> slice s (a + length xs) b = ys
         \<and> a + length xs \<le> b"
proof -
  have len: "length xs + length ys = b - a"
    using assms length_slice [of b s a] by (metis length_append)
  then have m: "a \<le> a + length xs" "a + length xs \<le> b" using assms(2) by simp_all
  from slice_split [OF m] assms(1)
  have eq: "slice s a (a + length xs) @ slice s (a + length xs) b = xs @ ys" by simp
  have "length (slice s a (a + length xs)) = length xs"
    using m assms(3) by (simp add: length_slice)
  with eq m show ?thesis by simp
qed

lemma set_ends_num_pat:
  "b \<in> set (ends False num_pat s a) \<longleftrightarrow>
     at_boundary s a \<and> at_boundary s b
     \<and> (\<exists>e1 e2. a + 1 \<le> e1 \<and> e1 \<le> a + run False Digit s a
           \<and> e1 \<le> e2 \<and> e2 \<le> e1 + run False (OneOf ''.,'') s e1 \<and> e2 \<le> e1 + 1
           \<and> e2 \<le> b \<and> b \<le> e2 + run False Digit s e2)"
  unfolding num_pat_def
  by (auto simp: set_ends_Rep simp del: ends.simps(2) split: if_splits)

lemma atom_match_plain:
  "atom_match False Digit = is_digit"
  "atom_match False (OneOf ''.,'') = (\<lambda>c. c \<in> set ''.,'')"
  by (rule ext, simp)+

lemma num_pat_token:
  assumes "b \<in> set (ends False num_pat s a)" "a \<le> length s"
  shows "num_token s a b"
proof -
  from num_pat_endsD [OF assms] obtain e1 e2 where
    *: "a < e1" "e1 \<le> e2" "e2 \<le> e1 + 1" "e2 \<le> b" "b \<le> length s"
       "list_all is_digit (slice s a e1)" "list_all (\<lambda>c. c \<in> set ''.,'') (slice s e1 e2)"
       "list_all is_digit (slice s e2 b)" "at_boundary s a" "at_boundary s b"
    by blast
  have split: "slice s a b = slice s a e1 @ slice s e1 e2 @ slice s e2 b"
    using * slice_split [of a e1 b s] slice_split [of e1 e2 b s] by simp
  have "slice s a e1 \<noteq> []" "length (slice s e1 e2) \<le> 1"
    using * by (simp_all add: slice_def)
  then have "token_shape (slice s a b)"
    unfolding split using * by (intro token_shape_parts) simp_all
  then show ?thesis using * by (simp add: num_token_def)
qed

lemma token_num_pat:
  assumes "num_token s a b"
  shows "b \<in> set (ends False num_pat s a)"
proof -
  from assms have ab: "a < b" "b \<le> length s" and bd: "at_boundary s a" "at_boundary s b"
    and sh: "token_shape (slice s a b)"
    by (simp_all add: num_token_def)
  from token_shapeD [OF sh] obtain d1 sep d2 where
    v: "slice s a b = d1 @ sep @ d2" and d1: "d1 \<noteq> []" "list_all is_digit d1"
    and sep: "list_all (\<lambda>c. c \<in> set ''.,'') sep" "length sep \<le> 1"
    and d2: "list_all is_digit d2"
    by blast
  define e1 where "e1 = a + length d1"
  define e2 where "e2 = e1 + length sep"
  from slice_append_parts [OF v] ab
  have p1: "slice s a e1 = d1" "slice s e1 b = sep @ d2" "e1 \<le> b"
    by (simp_all add: e1_def)
  from slice_append_parts [OF p1(2) p1(3) ab(2)]
  have p2: "slice s e1 e2 = sep" "slice s e2 b = d2" "e2 \<le> b"
    by (simp_all add: e2_def)
  have "e1 \<le> a + run False Digit s a"
    using d1(2) p1 ab by (intro run_ge) (simp_all add: e1_def atom_match_plain)
  moreover have "e2 \<le> e1 + run False (OneOf ''.,'') s e1"
    using sep(1) p2 ab by (intro run_ge) (simp_all add: e2_def atom_match_plain)
  moreover have "b \<le> e2 + run False Digit s e2"
    using d2 p2 ab by (intro run_ge) (simp_all add: atom_match_plain)
  moreover have "a + 1 \<le> e1" using d1(1) by (cases d1) (simp_all add: e1_def)
  moreover have "e1 \<le> e2" "e2 \<le> e1 + 1" using sep(2) by (simp_all add: e2_def)
  ultimately show ?thesis
    using bd p2(3) unfolding set_ends_num_pat by blast
qed


section \<open>The match chosen by \<open>num_pat\<close> is the longest token\<close>

lemma digit_is_word: "is_digit c \<Longrightarrow> is_word c"
  by (simp add: is_digit_def is_word_def)

lemma digit_not_sep: "is_digit c \<Longrightarrow> c \<notin> set ''.,''"
  using not_digit_marks by auto

lemma concat_boundary_filter:
  "concat (map (\<lambda>e. if P e then [e] else []) xs) = filter P xs"
  by (induction xs) auto

lemma ends_then_boundary:
  "ends ic (Seq r WordB) s i = filter (at_boundary s) (ends ic r s i)"
proof -
  have "ends ic WordB s = (\<lambda>e. if at_boundary s e then [e] else [])" by (rule ext) simp
  then show ?thesis by (simp add: concat_boundary_filter)
qed

lemma ends_boundary_then:
  "ends ic (Seq WordB r) s i = (if at_boundary s i then ends ic r s i else [])"
  by simp

lemma hd_filter_max:
  "sorted_wrt (\<lambda>x y. y \<le> x) xs \<Longrightarrow> e \<in> set (filter P xs) \<Longrightarrow> (e::nat) \<le> hd (filter P xs)"
  by (induction xs) (auto split: if_splits)

lemma sorted_desc_upt: "sorted_wrt (\<lambda>x y. y \<le> x) (rev [m..<n])"
  by (simp add: sorted_wrt_rev)

lemma num_tail_first:
  assumes "run False Digit s e = 0"
  shows "sorted_wrt (\<lambda>x y. y \<le> x) (num_tail s e) \<and> e \<in> set (num_tail s e)"
proof (cases "1 \<le> run False (OneOf ''.,'') s e")
  case True
  then have m: "min (run False (OneOf ''.,'') s e) 1 = 1" by simp
  have "[e ..< e + 1 + 1] = [e, e + 1]" by (simp add: upt_rec)
  then have "ends False (Opt (OneOf ''.,'')) s e = [e + 1, e]"
    using m by (simp add: Let_def)
  then have "num_tail s e = rev [e + 1 ..< e + 1 + run False Digit s (e + 1) + 1] @ [e]"
    using assms by (simp add: num_tail_def Let_def)
  moreover have "sorted_wrt (\<lambda>x y. y \<le> x) (rev [e + 1 ..< e + 1 + run False Digit s (e + 1) + 1] @ [e])"
    using sorted_desc_upt [of "e + 1"] by (simp add: sorted_wrt_append)
  ultimately show ?thesis by simp
next
  case False
  then have m: "min (run False (OneOf ''.,'') s e) 1 = 0" by simp
  then have "ends False (Opt (OneOf ''.,'')) s e = [e]" by (simp add: Let_def)
  then have "num_tail s e = [e]" using assms by (simp add: num_tail_def Let_def)
  then show ?thesis by simp
qed

lemma num_tail_inside:
  assumes "a \<le> e1" "e1 < a + run False Digit s a" "e \<in> set (num_tail s e1)" "at_boundary s e"
    and "a < e1"
  shows "e = a + run False Digit s a"
proof -
  let ?n = "run False Digit s a"
  have dig: "j < length s \<and> is_digit (s ! j)" if "a \<le> j" "j < a + ?n" for j
    using run_nth [OF that] by simp
  have "\<not> atom_match False (OneOf ''.,'') (s ! e1)"
    using dig [of e1] assms(1,2) digit_not_sep by simp
  then have sep0: "run False (OneOf ''.,'') s e1 = 0" by (intro run_zero) simp
  have "run False Digit s (a + (e1 - a)) = ?n - (e1 - a)"
    using assms(1,2) by (intro run_inside) simp
  then have r1: "e1 + run False Digit s e1 = a + ?n" using assms(1,2) by simp
  from assms(3) have "e1 \<le> e" "e \<le> e1 + run False Digit s e1"
    unfolding num_tail_def using sep0
    by (auto simp: set_ends_Rep simp del: ends.simps(2))
  then have range: "e1 \<le> e" "e \<le> a + ?n" using r1 by simp_all
  show ?thesis
  proof (rule ccontr)
    assume "e \<noteq> a + ?n"
    then have lt: "e < a + ?n" using range by simp
    have "is_word (s ! e)" "e < length s" using dig [of e] lt range assms(1) digit_is_word by simp_all
    moreover have "is_word (s ! (e - 1))" "0 < e"
      using dig [of "e - 1"] lt range assms(1,5) digit_is_word by simp_all
    ultimately show False using assms(4) by (simp add: at_boundary_def)
  qed
qed

lemma num_pat_hd_max:
  assumes "b' \<in> set (ends False num_pat s a)"
  shows "b' \<le> hd (ends False num_pat s a)"
proof -
  let ?n = "run False Digit s a"
  let ?P = "at_boundary s"
  from assms have ba: "at_boundary s a" and n: "1 \<le> ?n"
    unfolding set_ends_num_pat by auto
  have plus: "ends False (Plus Digit) s a = (a + ?n) # rev [a + 1 ..< a + ?n]"
    using n by (simp add: Let_def)
  have tail: "ends False (Seq (Opt (OneOf ''.,'')) (Star Digit)) s = num_tail s"
    by (rule ext) (simp only: num_tail_def ends.simps(5))
  have "ends False num_pat s a
      = filter ?P (ends False (Seq (Plus Digit) (Seq (Opt (OneOf ''.,'')) (Star Digit))) s a)"
    unfolding num_pat_def by (simp only: ends_boundary_then ends_then_boundary ba if_True)
  also have "ends False (Seq (Plus Digit) (Seq (Opt (OneOf ''.,'')) (Star Digit))) s a
      = concat (map (num_tail s) (ends False (Plus Digit) s a))"
    by (simp only: ends.simps(5) tail)
  finally have "ends False num_pat s a
      = filter ?P (concat (map (num_tail s) (ends False (Plus Digit) s a)))" .
  then have eq: "ends False num_pat s a
      = filter ?P (num_tail s (a + ?n)) @ filter ?P (concat (map (num_tail s) (rev [a + 1 ..< a + ?n])))"
    by (simp only: plus list.map concat.simps filter_append)
  have "run False Digit s (a + ?n) = ?n - ?n" by (intro run_inside) simp
  then have first: "sorted_wrt (\<lambda>x y. y \<le> x) (num_tail s (a + ?n))" "a + ?n \<in> set (num_tail s (a + ?n))"
    using num_tail_first [of s "a + ?n"] by simp_all
  have rest: "e = a + ?n" if "e \<in> set (filter ?P (concat (map (num_tail s) (rev [a + 1 ..< a + ?n]))))" for e
  proof -
    from that obtain e1 where "a + 1 \<le> e1" "e1 < a + ?n" "e \<in> set (num_tail s e1)" "?P e"
      by auto
    then show ?thesis using num_tail_inside [of a e1 s e] by simp
  qed
  have "b' \<in> set (filter ?P (num_tail s (a + ?n)))"
  proof (cases "b' \<in> set (filter ?P (num_tail s (a + ?n)))")
    case True
    then show ?thesis .
  next
    case False
    with assms eq have in_rest: "b' \<in> set (filter ?P (concat (map (num_tail s) (rev [a + 1 ..< a + ?n]))))"
      by (metis Un_iff set_append)
    then have "b' = a + ?n" by (rule rest)
    moreover have "?P b'" using in_rest by simp
    ultimately show ?thesis using first(2) by simp
  qed
  then have mem: "b' \<in> set (filter ?P (num_tail s (a + ?n)))" .
  then have "b' \<le> hd (filter ?P (num_tail s (a + ?n)))"
    by (rule hd_filter_max [OF first(1)])
  moreover have "filter ?P (num_tail s (a + ?n)) \<noteq> []"
    using mem by (metis empty_iff empty_set)
  ultimately show ?thesis by (simp add: eq)
qed


lemma num_search_Some:
  assumes "search_from False num_pat s pos = Some (a, b)"
  shows "pos \<le> a \<and> num_token s a b
       \<and> (\<forall>a' b'. pos \<le> a' \<and> a' < a \<longrightarrow> \<not> num_token s a' b')
       \<and> (\<forall>b'. num_token s a b' \<longrightarrow> b' \<le> b)"
proof -
  from search_from_SomeD [OF assms]
  have *: "pos \<le> a" "a \<le> length s" "ends False num_pat s a \<noteq> []"
      "b = hd (ends False num_pat s a)"
      "\<And>a'. pos \<le> a' \<Longrightarrow> a' < a \<Longrightarrow> ends False num_pat s a' = []"
    by simp_all
  have "b \<in> set (ends False num_pat s a)" using *(3,4) by simp
  then have 1: "num_token s a b" using *(2) by (rule num_pat_token)
  have 2: "\<not> num_token s a' b'" if "pos \<le> a'" "a' < a" for a' b'
    using token_num_pat [of s a' b'] *(5) [OF that] by auto
  have 3: "b' \<le> b" if "num_token s a b'" for b'
    using num_pat_hd_max [OF token_num_pat [OF that]] *(4) by simp
  from *(1) 1 2 3 show ?thesis by blast
qed

lemma num_search_None:
  assumes "search_from False num_pat s pos = None" "pos \<le> a"
  shows "\<not> num_token s a b"
proof
  assume tok: "num_token s a b"
  then have "a \<le> length s" by (simp add: num_token_def)
  from search_from_NoneD [OF assms this] token_num_pat [OF tok] show False by simp
qed

section \<open>Substitution and the normalizer of the specification\<close>

lemma drop_slice: "a \<le> b \<Longrightarrow> drop a s = slice s a b @ drop b s"
proof -
  assume "a \<le> b"
  then have "drop (b - a) (drop a s) = drop b s" by simp
  moreover have "take (b - a) (drop a s) @ drop (b - a) (drop a s) = drop a s"
    by (rule append_take_drop_id)
  ultimately show ?thesis unfolding slice_def by metis
qed

lemma set_slice: "b \<le> length s \<Longrightarrow> set (slice s a b) = {s ! k | k. a \<le> k \<and> k < b}"
proof -
  assume b: "b \<le> length s"
  have "length (slice s a b) = b - a" using b by (rule length_slice)
  moreover have "slice s a b ! i = drop a s ! i" if "i < b - a" for i
    using that by (simp add: slice_def)
  ultimately have "set (slice s a b) = {drop a s ! i | i. i < b - a}"
    unfolding set_conv_nth by (metis (no_types, lifting))
  also have "\<dots> = {s ! k | k. a \<le> k \<and> k < b}"
  proof (intro set_eqI iffI)
    fix x assume "x \<in> {drop a s ! i | i. i < b - a}"
    then obtain i where "i < b - a" "x = drop a s ! i" by blast
    then have "x = s ! (a + i)" "a \<le> a + i" "a + i < b" using b by simp_all
    then show "x \<in> {s ! k | k. a \<le> k \<and> k < b}" by blast
  next
    fix x assume "x \<in> {s ! k | k. a \<le> k \<and> k < b}"
    then obtain k where "a \<le> k" "k < b" "x = s ! k" by blast
    then have "x = drop a s ! (k - a)" "k - a < b - a" using b by simp_all
    then show "x \<in> {drop a s ! i | i. i < b - a}" by blast
  qed
  finally show ?thesis .
qed

lemma concat_map_if:
  "concat (map (\<lambda>j. if Q j then [g j] else []) xs) = map g (filter Q xs)"
  by (induction xs) auto

lemma hd_filter_min:
  "sorted xs \<Longrightarrow> e \<in> set (filter P xs) \<Longrightarrow> hd (filter P xs) \<le> (e::nat)"
  by (induction xs) (auto split: if_splits)

lemma run_all:
  assumes "\<forall>c\<in>set s. atom_match ic a c"
  shows "run ic a s i = length s - i"
proof -
  have "\<forall>c\<in>set (drop i s). atom_match ic a c" using assms by (auto dest: in_set_dropD)
  then have tw: "takeWhile (atom_match ic a) (drop i s) = drop i s"
    by (metis takeWhile_eq_all_conv)
  show ?thesis unfolding run_def tw by simp
qed

lemma ends_lazy_star: "ends ic (LazyStar a) s i = [i ..< i + run ic a s i + 1]"
  by (simp add: Let_def)

lemma ends_paren_pat:
  assumes "CHR 0x0A \<notin> set s"
  shows "ends False paren_pat s i =
           (if i < length s \<and> s ! i = CHR ''(''
            then map Suc (filter (\<lambda>j. s ! j = CHR '')'') [i + 1 ..< length s]) else [])"
proof (cases "i < length s \<and> s ! i = CHR ''(''")
  case False
  then show ?thesis by (auto simp: paren_pat_def)
next
  case True
  have "\<forall>c\<in>set s. atom_match False AnyChar c" using assms by auto
  then have n: "run False AnyChar s (i + 1) = length s - (i + 1)" by (rule run_all)
  have ub: "i + 1 + run False AnyChar s (i + 1) + 1 = length s + 1"
    using True n by auto
  have lazy: "ends False (LazyStar AnyChar) s (i + 1) = [i + 1 ..< length s + 1]"
    unfolding ends_lazy_star ub ..
  have one: "ends False (One (Lit CHR '')'')) s
           = (\<lambda>j. if j < length s \<and> s ! j = CHR '')'' then [Suc j] else [])"
    by (rule ext) simp
  have first: "ends False (One (Lit CHR ''('')) s i = [i + 1]" using True by simp
  have "ends False paren_pat s i
      = ends False (Seq (LazyStar AnyChar) (One (Lit CHR '')''))) s (i + 1)"
    unfolding paren_pat_def by (simp only: ends.simps(5) first list.map concat.simps append_Nil2)
  also have "\<dots>
      = concat (map (ends False (One (Lit CHR '')'')) s) (ends False (LazyStar AnyChar) s (i + 1)))"
    by (simp only: ends.simps(5))
  also have "\<dots> = map Suc (filter (\<lambda>j. j < length s \<and> s ! j = CHR '')'') [i + 1 ..< length s + 1])"
    unfolding lazy one by (rule concat_map_if)
  also have "filter (\<lambda>j. j < length s \<and> s ! j = CHR '')'') [i + 1 ..< length s + 1]
           = filter (\<lambda>j. s ! j = CHR '')'') [i + 1 ..< length s]"
  proof -
    have "filter (\<lambda>j. j < length s \<and> s ! j = CHR '')'') [i + 1 ..< length s]
        = filter (\<lambda>j. s ! j = CHR '')'') [i + 1 ..< length s]"
      by (rule filter_cong [OF refl]) simp
    then show ?thesis using True by simp
  qed
  finally show ?thesis using True by simp
qed


lemma paren_ends_nonempty:
  assumes "CHR 0x0A \<notin> set s" "k < length s" "s ! k = CHR ''(''"
    and "k < j" "j < length s" "s ! j = CHR '')''"
  shows "ends False paren_pat s k \<noteq> []"
proof -
  have "j \<in> set (filter (\<lambda>j. s ! j = CHR '')'') [k + 1 ..< length s])"
    using assms(4,5,6) by simp
  then have "filter (\<lambda>j. s ! j = CHR '')'') [k + 1 ..< length s] \<noteq> []"
    by (metis empty_iff list.set(1))
  moreover have "ends False paren_pat s k = map Suc (filter (\<lambda>j. s ! j = CHR '')'') [k + 1 ..< length s])"
    using assms(2,3) by (simp add: ends_paren_pat [OF assms(1)])
  ultimately show ?thesis by simp
qed

lemma paren_search_Some:
  assumes "CHR 0x0A \<notin> set s" "search_from False paren_pat s pos = Some (st, en)"
  shows "pos \<le> st \<and> st + 1 < en \<and> en \<le> length s \<and> s ! st = CHR ''('' \<and> s ! (en - 1) = CHR '')''
       \<and> CHR '')'' \<notin> set (slice s (st + 1) (en - 1)) \<and> CHR ''('' \<notin> set (slice s pos st)"
proof -
  let ?Q = "\<lambda>j. s ! j = CHR '')''"
  let ?F = "\<lambda>i. filter ?Q [i + 1 ..< length s]"
  from search_from_SomeD [OF assms(2)]
  have *: "pos \<le> st" "st \<le> length s" "ends False paren_pat s st \<noteq> []"
      "en = hd (ends False paren_pat s st)"
      "\<And>a'. pos \<le> a' \<Longrightarrow> a' < st \<Longrightarrow> ends False paren_pat s a' = []"
    by simp_all
  have eq: "ends False paren_pat s i = (if i < length s \<and> s ! i = CHR ''('' then map Suc (?F i) else [])"
    for i by (rule ends_paren_pat [OF assms(1)])
  from *(3) have opn: "st < length s" "s ! st = CHR ''(''" and ne: "?F st \<noteq> []"
    unfolding eq by (auto split: if_splits)
  define j where "j = hd (?F st)"
  have en: "en = Suc j" using *(4) opn ne unfolding eq j_def by (simp add: hd_map)
  have "j \<in> set (?F st)" using ne unfolding j_def by (rule hd_in_set)
  then have j: "st + 1 \<le> j" "j < length s" "s ! j = CHR '')''" by auto
  have least: "j \<le> k" if "st + 1 \<le> k" "k < length s" "s ! k = CHR '')''" for k
  proof -
    have "k \<in> set (?F st)" using that by simp
    then show ?thesis unfolding j_def by (intro hd_filter_min) simp_all
  qed
  have 1: "CHR '')'' \<notin> set (slice s (st + 1) j)"
  proof
    assume "CHR '')'' \<in> set (slice s (st + 1) j)"
    then obtain k where "st + 1 \<le> k" "k < j" "s ! k = CHR '')''"
      using j(2) set_slice [of j s "st + 1"] by auto
    then show False using least [of k] j(2) by simp
  qed
  have 2: "CHR ''('' \<notin> set (slice s pos st)"
  proof
    assume "CHR ''('' \<in> set (slice s pos st)"
    then obtain k where k: "pos \<le> k" "k < st" "s ! k = CHR ''(''"
      using *(2) set_slice [of st s pos] by auto
    then have "ends False paren_pat s k \<noteq> []"
      using j opn(1) by (intro paren_ends_nonempty [OF assms(1), of k j]) simp_all
    then show False using *(5) [OF k(1,2)] by simp
  qed
  from *(1) j opn 1 2 show ?thesis unfolding en by simp
qed

lemma paren_search_None:
  assumes "CHR 0x0A \<notin> set s" "search_from False paren_pat s pos = None"
    and "pos \<le> k" "k < length s" "s ! k = CHR ''(''"
  shows "CHR '')'' \<notin> set (drop (k + 1) s)"
proof
  assume "CHR '')'' \<in> set (drop (k + 1) s)"
  then obtain i where "i < length s - (k + 1)" "drop (k + 1) s ! i = CHR '')''"
    by (auto simp: in_set_conv_nth)
  then have j: "k + 1 \<le> k + 1 + i" "k + 1 + i < length s" "s ! (k + 1 + i) = CHR '')''"
    by simp_all
  then have "ends False paren_pat s k \<noteq> []"
    using assms(4,5) by (intro paren_ends_nonempty [OF assms(1), of k "k + 1 + i"]) simp_all
  moreover have "ends False paren_pat s k = []"
    using assms(2,3,4) by (intro search_from_NoneD) simp_all
  ultimately show False by simp
qed

lemma strip_no_open:
  "CHR ''('' \<notin> set xs \<Longrightarrow> spec_strip_parens (xs @ ys) = xs @ spec_strip_parens ys"
  by (induction xs) auto

lemma strip_pair:
  assumes "CHR '')'' \<notin> set ys"
  shows "spec_strip_parens (CHR ''('' # ys @ CHR '')'' # zs) = spec_strip_parens zs"
proof -
  have "dropWhile (\<lambda>x. x \<noteq> CHR '')'') (ys @ CHR '')'' # zs) = CHR '')'' # zs"
    using assms by (intro dropWhile_stop) (auto simp: list_all_iff)
  then show ?thesis by simp
qed

lemma strip_none:
  "(\<And>k. k < length xs \<Longrightarrow> xs ! k = CHR ''('' \<Longrightarrow> CHR '')'' \<notin> set (drop (k + 1) xs))
   \<Longrightarrow> spec_strip_parens xs = xs"
proof (induction xs)
  case Nil
  then show ?case by simp
next
  case (Cons c cs)
  have "CHR '')'' \<notin> set (drop (k + 1) cs)" if "k < length cs" "cs ! k = CHR ''(''" for k
    using Cons.prems [of "Suc k"] that by simp
  then have "spec_strip_parens cs = cs" by (rule Cons.IH)
  moreover have "\<not> (c = CHR ''('' \<and> CHR '')'' \<in> set cs)"
    using Cons.prems [of 0] by auto
  ultimately show ?case by auto
qed

lemma sub_paren:
  assumes "CHR 0x0A \<notin> set s"
  shows "sub_from False paren_pat [] s pos = spec_strip_parens (drop pos s)"
proof (induction "length s - pos" arbitrary: pos rule: less_induct)
  case less
  show ?case
  proof (cases "search_from False paren_pat s pos")
    case None
    have "CHR '')'' \<notin> set (drop (k + 1) (drop pos s))"
      if "k < length (drop pos s)" "drop pos s ! k = CHR ''(''" for k
    proof -
      have "CHR '')'' \<notin> set (drop (pos + k + 1) s)"
        using that by (intro paren_search_None [OF assms None]) simp_all
      then show ?thesis by (simp add: add.commute add.left_commute)
    qed
    then have "spec_strip_parens (drop pos s) = drop pos s" by (rule strip_none)
    then show ?thesis using None by (simp add: sub_from.simps [of False paren_pat "[]" s pos])
  next
    case (Some m)
    obtain st en where m: "m = (st, en)" by (cases m)
    from paren_search_Some [OF assms Some [unfolded m]]
    have *: "pos \<le> st" "st + 1 < en" "en \<le> length s" "s ! st = CHR ''(''" "s ! (en - 1) = CHR '')''"
      "CHR '')'' \<notin> set (slice s (st + 1) (en - 1))" "CHR ''('' \<notin> set (slice s pos st)"
      by simp_all
    have IH: "sub_from False paren_pat [] s en = spec_strip_parens (drop en s)"
      using * by (intro less) simp
    have "drop st s = slice s st (st + 1) @ slice s (st + 1) (en - 1) @ slice s (en - 1) en @ drop en s"
      using * drop_slice [of st "st + 1" s] drop_slice [of "st + 1" "en - 1" s]
        drop_slice [of "en - 1" en s] by simp
    moreover have "slice s st (st + 1) = [CHR ''('']"
      using * slice_one [of st s] by simp
    moreover have "slice s (en - 1) en = [CHR '')'']"
      using * slice_one [of "en - 1" s] by simp
    ultimately have "drop st s = CHR ''('' # slice s (st + 1) (en - 1) @ CHR '')'' # drop en s"
      by simp
    then have "spec_strip_parens (drop st s) = spec_strip_parens (drop en s)"
      using strip_pair [OF *(6)] by simp
    moreover have "drop pos s = slice s pos st @ drop st s"
      using *(1) by (rule drop_slice)
    ultimately have "spec_strip_parens (drop pos s) = slice s pos st @ spec_strip_parens (drop en s)"
      using strip_no_open [OF *(7)] by simp
    then show ?thesis
      using Some m * IH by (simp add: sub_from.simps [of False paren_pat "[]" s pos])
  qed
qed


lemma ends_space_pat:
  "ends False space_pat s i =
     (if 1 \<le> run False Space s i then rev [i + 1 ..< i + run False Space s i + 1] else [])"
  by (auto simp: space_pat_def Let_def)

lemma space_search_Some:
  assumes "search_from False space_pat s pos = Some (st, en)"
  shows "pos \<le> st \<and> st < en \<and> en \<le> length s \<and> list_all is_space (slice s st en)
       \<and> (en < length s \<longrightarrow> \<not> is_space (s ! en))
       \<and> (\<forall>c\<in>set (slice s pos st). \<not> is_space c)"
proof -
  let ?n = "run False Space s st"
  from search_from_SomeD [OF assms]
  have *: "pos \<le> st" "st \<le> length s" "ends False space_pat s st \<noteq> []"
      "en = hd (ends False space_pat s st)"
      "\<And>a'. pos \<le> a' \<Longrightarrow> a' < st \<Longrightarrow> ends False space_pat s a' = []"
    by simp_all
  from *(3) have n: "1 \<le> ?n" unfolding ends_space_pat by (auto split: if_splits)
  then have "rev [st + 1 ..< st + ?n + 1] = (st + ?n) # rev [st + 1 ..< st + ?n]"
    by simp
  then have "ends False space_pat s st = (st + ?n) # rev [st + 1 ..< st + ?n]"
    using n by (simp only: ends_space_pat if_True)
  then have en: "en = st + ?n" using *(4) by simp
  have 1: "list_all (atom_match False Space) (slice s st en) \<and> en \<le> length s"
    using *(2) by (intro run_chars) (simp_all add: en)
  have 2: "\<not> is_space (s ! en)" if "en < length s"
    using run_stop [of st False Space s] that by (simp add: en)
  have 3: "\<not> is_space c" if "c \<in> set (slice s pos st)" for c
  proof
    assume sp: "is_space c"
    from that obtain k where k: "pos \<le> k" "k < st" "s ! k = c"
      using *(2) set_slice [of st s pos] by auto
    then have "1 \<le> run False Space s k" using sp *(2) by (intro run_pos) simp_all
    then have "ends False space_pat s k \<noteq> []" unfolding ends_space_pat by simp
    then show False using *(5) [OF k(1,2)] by simp
  qed
  have "atom_match False Space = is_space" by (rule ext) simp
  with 1 2 3 *(1) n show ?thesis by (simp add: en)
qed

lemma space_search_None:
  assumes "search_from False space_pat s pos = None" "pos \<le> k" "k < length s"
  shows "\<not> is_space (s ! k)"
proof
  assume "is_space (s ! k)"
  then have "1 \<le> run False Space s k" using assms(3) by (intro run_pos) simp_all
  then have "ends False space_pat s k \<noteq> []" unfolding ends_space_pat by simp
  moreover have "ends False space_pat s k = []"
    using assms by (intro search_from_NoneD) simp_all
  ultimately show False by simp
qed

lemma collapse_no_space:
  "\<forall>c\<in>set xs. \<not> is_space c \<Longrightarrow> spec_collapse (xs @ ys) = xs @ spec_collapse ys"
  by (induction xs) auto

lemma collapse_run:
  assumes "sp \<noteq> []" "list_all is_space sp" "rest = [] \<or> \<not> is_space (hd rest)"
  shows "spec_collapse (sp @ rest) = CHR '' '' # spec_collapse rest"
proof -
  obtain c cs where sp: "sp = c # cs" using assms(1) by (cases sp) auto
  have "dropWhile is_space rest = rest" using assms(3) by (cases rest) auto
  then have "dropWhile is_space (cs @ rest) = rest"
    using assms(2) sp by (simp add: dropWhile_append list_all_iff)
  then show ?thesis using assms(2) sp by simp
qed

lemma sub_space: "sub_from False space_pat '' '' s pos = spec_collapse (drop pos s)"
proof (induction "length s - pos" arbitrary: pos rule: less_induct)
  case less
  show ?case
  proof (cases "search_from False space_pat s pos")
    case None
    have "\<forall>c\<in>set (drop pos s). \<not> is_space c"
    proof
      fix c assume "c \<in> set (drop pos s)"
      then obtain i where "i < length s - pos" "drop pos s ! i = c"
        by (auto simp: in_set_conv_nth)
      then have "pos + i < length s" "s ! (pos + i) = c" by simp_all
      then show "\<not> is_space c" using space_search_None [OF None, of "pos + i"] by auto
    qed
    then have "spec_collapse (drop pos s @ []) = drop pos s @ spec_collapse []"
      by (rule collapse_no_space)
    then show ?thesis using None by (simp add: sub_from.simps [of False space_pat "'' ''" s pos])
  next
    case (Some m)
    obtain st en where m: "m = (st, en)" by (cases m)
    from space_search_Some [OF Some [unfolded m]]
    have *: "pos \<le> st" "st < en" "en \<le> length s" "list_all is_space (slice s st en)"
      "en < length s \<longrightarrow> \<not> is_space (s ! en)" "\<forall>c\<in>set (slice s pos st). \<not> is_space c"
      by simp_all
    have IH: "sub_from False space_pat '' '' s en = spec_collapse (drop en s)"
      using * by (intro less) simp
    have "drop en s = [] \<or> \<not> is_space (hd (drop en s))"
      using *(5) by (cases "en < length s") (simp_all add: hd_drop_conv_nth)
    moreover have "slice s st en \<noteq> []" using *(2,3) by (simp add: slice_def)
    ultimately have "spec_collapse (slice s st en @ drop en s) = CHR '' '' # spec_collapse (drop en s)"
      using *(4) by (intro collapse_run)
    moreover have "drop pos s = slice s pos st @ slice s st en @ drop en s"
      using * drop_slice [of pos st s] drop_slice [of st en s] by simp
    ultimately have "spec_collapse (drop pos s) = slice s pos st @ CHR '' '' # spec_collapse (drop en s)"
      using collapse_no_space [OF *(6)] by simp
    then show ?thesis
      using Some m * IH by (simp add: sub_from.simps [of False space_pat "'' ''" s pos])
  qed
qed

lemma line_no_newline: "line \<in> set (splitlines doc) \<Longrightarrow> CHR 0x0A \<notin> set line"
proof -
  assume "line \<in> set (splitlines doc)"
  then have "\<forall>c\<in>set line. \<not> is_linebreak c"
    using lines_acc_no_break [where cur = "[]" and cs = doc and l = line]
    by (simp add: splitlines_def)
  moreover have "is_linebreak CHR 0x0A" by (simp add: is_linebreak_def code_def)
  ultimately show ?thesis by auto
qed

lemma trim_leading_eq: "trim_leading s = dropWhile is_space s"
  by (induction s) auto

lemma trim_trailing_Nil_iff: "trim_trailing s = [] \<longleftrightarrow> list_all is_space s"
  by (induction s) auto

lemma trim_trailing_eq: "trim_trailing s = rev (dropWhile is_space (rev s))"
proof (induction s)
  case Nil
  then show ?case by simp
next
  case (Cons c cs)
  show ?case
  proof (cases "list_all is_space cs")
    case True
    then have "\<forall>x\<in>set (rev cs). is_space x" by (simp add: list_all_iff)
    then have "dropWhile is_space (rev cs @ [c]) = dropWhile is_space [c]"
      by (simp add: dropWhile_append)
    moreover have "trim_trailing cs = []" using True by (simp add: trim_trailing_Nil_iff)
    ultimately show ?thesis by simp
  next
    case False
    then have "\<not> (\<forall>x\<in>set (rev cs). is_space x)" by (simp add: list_all_iff)
    then have "dropWhile is_space (rev cs @ [c]) = dropWhile is_space (rev cs) @ [c]"
      by (simp add: dropWhile_append)
    moreover have "trim_trailing cs \<noteq> []" using False by (simp add: trim_trailing_Nil_iff)
    ultimately show ?thesis using Cons by simp
  qed
qed

lemma strip_eq_spec_trim: "strip s = spec_trim s"
  by (simp add: strip_def spec_trim_def trim_leading_eq trim_trailing_eq)

lemma rev_split_while:
  "xs = rev (dropWhile P (rev xs)) @ rev (takeWhile P (rev xs))"
  by (metis rev_append rev_rev_ident takeWhile_dropWhile_id)

lemma strip_parts:
  "\<exists>a b. s = a @ strip s @ b \<and> list_all is_space a \<and> list_all is_space b"
proof -
  let ?m = "dropWhile is_space s"
  let ?a = "takeWhile is_space s"
  let ?b = "rev (takeWhile is_space (rev ?m))"
  have m: "?m = strip s @ ?b" unfolding strip_def by (rule rev_split_while)
  have "s = ?a @ ?m" by simp
  then have "s = ?a @ strip s @ ?b" using m by metis
  moreover have "list_all is_space ?a" "list_all is_space ?b"
    by (auto simp: list_all_iff dest: set_takeWhileD)
  ultimately show ?thesis by blast
qed

lemma strip_ends:
  assumes "strip s \<noteq> []"
  shows "\<not> is_space (hd (strip s)) \<and> \<not> is_space (last (strip s))"
proof -
  let ?m = "dropWhile is_space s"
  let ?r = "dropWhile is_space (rev ?m)"
  have r: "?r \<noteq> []" using assms by (simp add: strip_def)
  then have 1: "\<not> is_space (hd ?r)" by (rule hd_dropWhile)
  have "last (strip s) = hd ?r" using r by (simp add: strip_def last_rev)
  then have last: "\<not> is_space (last (strip s))" using 1 by simp
  have m: "?m \<noteq> []" using r by (metis dropWhile.simps(1) rev.simps(1))
  then have 2: "\<not> is_space (hd ?m)" by (rule hd_dropWhile)
  have "?m = strip s @ rev (takeWhile is_space (rev ?m))"
    unfolding strip_def by (rule rev_split_while)
  then have "hd ?m = hd (strip s)" using assms by (metis hd_append2)
  with 2 last show ?thesis by simp
qed

lemma clean_eq_strip:
  "CHR 0x0A \<notin> set line \<Longrightarrow> clean line = strip (spec_collapse (spec_strip_parens line))"
  using sub_paren [of line 0] sub_space [of "spec_strip_parens line" 0]
  by (simp add: clean_def re_sub_def)

lemma clean_eq_spec: "CHR 0x0A \<notin> set line \<Longrightarrow> clean line = spec_normalize line"
  by (simp add: clean_eq_strip spec_normalize_def strip_eq_spec_trim)

section \<open>The first character of a label\<close>










section \<open>Texts of any length\<close>











section \<open>The claims\<close>

text \<open>
  C2. Once a metric is resolved on some line, no later line overwrites it: when a line
  is the first one on which the label of the metric is followed by a value, that value is
  the one stored after the line, it stays stored whatever lines follow, it is the value in
  the result of the whole text, and it is the value the line yields when it is the only
  line of the text.
\<close>

theorem first_match_wins:
  assumes "kp \<in> set patterns"
    and "splitlines doc = pre @ line # post"
    and "\<forall>l\<in>set pre. value_on_line (clean l) kp = None"
    and "value_on_line (clean line) kp = Some v"
  shows "(\<forall>later. map_of (foldl scan_line [] (pre @ line # later)) (fst kp) = Some (Some v))
       \<and> map_of (extract_health_values doc) (fst kp) = Some (Some v)
       \<and> map_of (extract_health_values line) (fst kp) = Some (Some v)"
proof -
  have kp: "(fst kp, snd kp) \<in> set patterns" using assms(1) by simp
  have fv: "first_value (pre @ line # later) kp = Some v" for later
    using assms(3,4) by (simp add: first_value_append first_value_None)
  have "clean line \<noteq> []" using assms(1,4) value_on_empty by fastforce
  then have "line \<noteq> []" using clean_empty by metis
  moreover have "line \<in> set (splitlines doc)" using assms(2) by simp
  ultimately have alone: "splitlines line = [line]" by (rule splitlines_line_alone [rotated])
  have 1: "map_of (foldl scan_line [] (pre @ line # later)) (fst kp) = Some (Some v)" for later
    by (simp only: lookup_scan_empty [OF assms(1)] fv option.map)
  have 2: "map_of (extract_health_values doc) (fst kp) = Some (Some v)"
    using lookup_extract [OF kp, of doc] fv [of post] assms(2) by simp
  have 3: "map_of (extract_health_values line) (fst kp) = Some (Some v)"
    using lookup_extract [OF kp, of line] alone assms(4) by simp
  from 1 2 3 show ?thesis by blast
qed

theorem first_match_wins_witness:
  "map_of (extract_health_values (''HbA1c 5.8%'' @ [CHR 0x0A] @ ''HbA1c 6.9%'')) ''HbA1c'' = Some (Some ''5.8'')
   \<and> value_on_line (clean ''HbA1c 6.9%'') (patterns ! 1) = Some ''6.9''
   \<and> map_of (extract_health_values ''HbA1c 5.8%'') ''HbA1c'' = Some (Some ''5.8'')"
proof -
  have a: "patterns ! 1 \<in> set patterns" by (simp add: patterns_def)
  have k: "fst (patterns ! 1) = ''HbA1c''" by (simp add: patterns_def)
  have b: "splitlines (''HbA1c 5.8%'' @ [CHR 0x0A] @ ''HbA1c 6.9%'') = [] @ ''HbA1c 5.8%'' # [''HbA1c 6.9%'']"
    by code_simp
  have c: "\<forall>l\<in>set []. value_on_line (clean l) (patterns ! 1) = None" by simp
  have d: "value_on_line (clean ''HbA1c 5.8%'') (patterns ! 1) = Some ''5.8''" by code_simp
  have e: "value_on_line (clean ''HbA1c 6.9%'') (patterns ! 1) = Some ''6.9''" by code_simp
  from first_match_wins [OF a b c d] e show ?thesis by (simp only: k)
qed

text \<open>
  C5. When the label of a metric matches on a line and no value of the metric's shape
  follows it on that line, the metric stays unresolved after the line and the following
  lines decide its value: it gets the value of the first later line that has one. The text
  with the lines \<open>Albumin: normal\<close> and \<open>Albumin 4.1 g/dL\<close> yields Albumin = 4.1.
\<close>

theorem label_without_value_retried:
  assumes "kp \<in> set patterns"
    and "search_from True (snd kp) (clean line) 0 = Some (m_start, m_end)"
    and "search_from False (if fst kp = ''Blood Pressure'' then bp_pat else num_pat)
           (clean line) m_end = None"
  shows "(\<not> has_key res (fst kp) \<longrightarrow> \<not> has_key (scan_line res line) (fst kp))
       \<and> (\<not> has_key res (fst kp) \<longrightarrow>
            map_of (foldl scan_line res (line # rest)) (fst kp)
              = map_option Some (first_value rest kp))
       \<and> map_of (extract_health_values (''Albumin: normal'' @ [CHR 0x0A] @ ''Albumin 4.1 g/dL''))
            ''Albumin'' = Some (Some ''4.1'')"
proof -
  have kp: "(fst kp, snd kp) \<in> set patterns" using assms(1) by simp
  have none: "value_on_line (clean line) kp = None"
    using assms(2,3) by (simp add: value_on_line_def split: if_splits)
  have 1: "\<not> has_key (scan_line res line) (fst kp)" if "\<not> has_key res (fst kp)"
    using that none lookup_scan_line [OF kp, of res line] by (simp add: has_key_map_of)
  have 2: "map_of (foldl scan_line res (line # rest)) (fst kp) = map_option Some (first_value rest kp)"
    if "\<not> has_key res (fst kp)"
    using that none lookup_scan [OF kp, of res "line # rest"] by (simp add: has_key_map_of)
  have 3: "map_of (extract_health_values (''Albumin: normal'' @ [CHR 0x0A] @ ''Albumin 4.1 g/dL''))
            ''Albumin'' = Some (Some ''4.1'')"
    by code_simp
  from 1 2 3 show ?thesis by blast
qed

theorem label_without_value_retried_witness:
  "search_from True (snd (patterns ! 5)) (clean ''Albumin: normal'') 0 = Some (0, 7)
   \<and> search_from False num_pat (clean ''Albumin: normal'') 7 = None
   \<and> \<not> has_key (scan_line [] ''Albumin: normal'') ''Albumin''
   \<and> map_of (foldl scan_line [] [''Albumin: normal'', ''Albumin 4.1 g/dL'']) ''Albumin''
       = Some (Some ''4.1'')"
proof -
  have a: "patterns ! 5 \<in> set patterns" by (simp add: patterns_def)
  have k: "fst (patterns ! 5) = ''Albumin''" by (simp add: patterns_def)
  have b: "search_from True (snd (patterns ! 5)) (clean ''Albumin: normal'') 0 = Some (0, 7)"
    by code_simp
  have c: "search_from False (if fst (patterns ! 5) = ''Blood Pressure'' then bp_pat else num_pat)
             (clean ''Albumin: normal'') 7 = None"
    by code_simp
  have c': "search_from False num_pat (clean ''Albumin: normal'') 7 = None"
    by code_simp
  have d: "\<not> has_key [] (fst (patterns ! 5))" by (simp add: has_key_def)
  have e: "first_value [''Albumin 4.1 g/dL''] (patterns ! 5) = Some ''4.1''" by code_simp
  from label_without_value_retried [OF a b c, of "[]" "[''Albumin 4.1 g/dL'']"] d e b c'
  show ?thesis by (simp only: k) simp
qed

text \<open>
  C1. For every input text, the empty one included, the result has exactly one entry for
  each of the twelve metrics of the registry and no other entry; a metric that the scan of
  the lines left unresolved is mapped to \<open>None\<close>, and no entry holds the empty string.
\<close>

theorem result_has_every_metric_once:
  "distinct (map fst (extract_health_values doc))
   \<and> set (map fst (extract_health_values doc)) = set metric_names
   \<and> length (extract_health_values doc) = 12
   \<and> (\<forall>k\<in>set metric_names.
         \<not> has_key (foldl scan_line [] (splitlines doc)) k \<longrightarrow>
         map_of (extract_health_values doc) k = Some None)
   \<and> (\<forall>kv\<in>set (extract_health_values doc). snd kv \<noteq> Some [])
   \<and> extract_health_values [] = map (\<lambda>k. (k, None)) metric_names"
proof -
  let ?R = "foldl scan_line [] (splitlines doc)"
  have 1: "distinct (map fst (extract_health_values doc))"
    and 2: "set (map fst (extract_health_values doc)) = set metric_names"
    using extract_keys [of doc] by (simp_all only: keys_patterns)
  have "length (map fst (extract_health_values doc)) = card (set metric_names)"
    using 1 2 distinct_card by metis
  moreover have "card (set metric_names) = 12"
    by (simp add: metric_names_def)
  ultimately have 3: "length (extract_health_values doc) = 12" by simp
  have 4: "map_of (extract_health_values doc) k = Some None"
    if "k \<in> set metric_names" "\<not> has_key ?R k" for k
  proof -
    from that(1) obtain p where kp: "(k, p) \<in> set patterns"
      unfolding keys_patterns [symmetric] by auto
    show ?thesis
      using that(2) lookup_fill_missing [OF kp, of ?R]
      by (simp add: extract_health_values_def has_key_map_of)
  qed
  have 5: "snd kv \<noteq> Some []" if "kv \<in> set (extract_health_values doc)" for kv
    using that scan_empty_inv [of "splitlines doc"]
    by (auto simp: extract_health_values_def fill_missing_eq)
  have 6: "extract_health_values [] = map (\<lambda>k. (k, None)) metric_names"
    by code_simp
  from 1 2 3 4 5 6 show ?thesis by blast
qed

theorem result_has_every_metric_once_witness:
  "\<not> has_key (foldl scan_line [] (splitlines ''Plasma Glucose: 95 mg/dL'')) ''HDL''
   \<and> map_of (extract_health_values ''Plasma Glucose: 95 mg/dL'') ''HDL'' = Some None
   \<and> map_of (extract_health_values ''Plasma Glucose: 95 mg/dL'') ''Plasma Glucose'' = Some (Some ''95'')
   \<and> length (extract_health_values ''Plasma Glucose: 95 mg/dL'') = 12"
proof -
  have a: "''HDL'' \<in> set metric_names" by (simp add: metric_names_def)
  have b: "\<not> has_key (foldl scan_line [] (splitlines ''Plasma Glucose: 95 mg/dL'')) ''HDL''"
    by code_simp
  have c: "map_of (extract_health_values ''Plasma Glucose: 95 mg/dL'') ''Plasma Glucose'' = Some (Some ''95'')"
    by code_simp
  from result_has_every_metric_once [of "''Plasma Glucose: 95 mg/dL''"] a b c
  show ?thesis by blast
qed

text \<open>
  C9, as amended. The entries of the result are not in registry order when a metric is
  resolved: the resolved metrics come first, in the order in which the scan resolved them
  (by the line that resolved them, and in registry order within one line), and the
  unresolved metrics follow in registry order, each with \<open>None\<close>. The counterexample is
  the text with the lines \<open>LDL 130\<close> and \<open>HDL 50\<close>, whose result starts with LDL and HDL.
\<close>

theorem result_in_resolution_order:
  "extract_health_values doc = resolution_order (splitlines doc)"
proof -
  let ?ls = "splitlines doc"
  have "filter (\<lambda>kp. \<not> has_key (foldl scan_line [] ?ls) (fst kp)) patterns
      = filter (\<lambda>kp. first_line ?ls kp = None) patterns"
    by (rule filter_cong [OF refl]) (simp add: has_key_scan)
  then show ?thesis
    by (simp only: extract_health_values_def fill_missing_eq resolution_order_def scan_in_order)
qed

theorem result_in_resolution_order_witness:
  "resolution_order [''LDL 130'', ''HDL 50''] =
     [(''LDL'', Some ''130''), (''HDL'', Some ''50''), (''Plasma Glucose'', None), (''HbA1c'', None),
      (''Triglycerides'', None), (''Albumin'', None), (''Cholesterol'', None), (''BMI'', None),
      (''Blood Pressure'', None), (''TSH'', None), (''LDH'', None), (''CK'', None)]"
proof -
  have "extract_health_values (''LDL 130'' @ [CHR 0x0A] @ ''HDL 50'') =
     [(''LDL'', Some ''130''), (''HDL'', Some ''50''), (''Plasma Glucose'', None), (''HbA1c'', None),
      (''Triglycerides'', None), (''Albumin'', None), (''Cholesterol'', None), (''BMI'', None),
      (''Blood Pressure'', None), (''TSH'', None), (''LDH'', None), (''CK'', None)]"
    by code_simp
  moreover have "splitlines (''LDL 130'' @ [CHR 0x0A] @ ''HDL 50'') = [''LDL 130'', ''HDL 50'']"
    by code_simp
  ultimately show ?thesis
    using result_in_resolution_order [of "''LDL 130'' @ [CHR 0x0A] @ ''HDL 50''"] by simp
qed

theorem registry_order_counterexample:
  "map fst (extract_health_values (''LDL 130'' @ [CHR 0x0A] @ ''HDL 50'')) \<noteq> metric_names
   \<and> take 2 (extract_health_values (''LDL 130'' @ [CHR 0x0A] @ ''HDL 50''))
       = [(''LDL'', Some ''130''), (''HDL'', Some ''50'')]
   \<and> take 4 metric_names = [''Plasma Glucose'', ''HbA1c'', ''HDL'', ''LDL'']"
  by code_simp




text \<open>
  C10. A label match that ends in a period is immediately followed by a word character:
  the closing \<open>\b\<close> cannot hold between a period and a space or the end of the line. So
  the line \<open>B.P. 120/80\<close> has no Blood Pressure label and leaves the metric unresolved,
  while \<open>B.P.x 120/80\<close> and \<open>BP 120/80\<close> resolve it.
\<close>

theorem trailing_period_needs_word_char:
  assumes "kp \<in> set patterns"
    and "search_from True (snd kp) s 0 = Some (a, b)"
    and "0 < b" and "s ! (b - 1) = CHR ''.''"
  shows "b < length s \<and> is_word (s ! b)
       \<and> search_from True (snd (patterns ! 8)) ''B.P. 120/80'' 0 = None
       \<and> map_of (extract_health_values ''B.P. 120/80'') ''Blood Pressure'' = Some None
       \<and> map_of (extract_health_values ''B.P.x 120/80'') ''Blood Pressure'' = Some (Some ''120/80'')
       \<and> map_of (extract_health_values ''BP 120/80'') ''Blood Pressure'' = Some (Some ''120/80'')"
proof -
  have "at_boundary s b" using label_match_bounded [OF assms(1,2)] by simp
  then have 1: "b < length s \<and> is_word (s ! b)"
    using assms(3,4) not_word_period by (auto simp: at_boundary_def)
  have 2: "search_from True (snd (patterns ! 8)) ''B.P. 120/80'' 0 = None"
    by code_simp
  have 3: "map_of (extract_health_values ''B.P. 120/80'') ''Blood Pressure'' = Some None"
    by code_simp
  have 4: "map_of (extract_health_values ''B.P.x 120/80'') ''Blood Pressure'' = Some (Some ''120/80'')"
    by code_simp
  have 5: "map_of (extract_health_values ''BP 120/80'') ''Blood Pressure'' = Some (Some ''120/80'')"
    by code_simp
  from 1 2 3 4 5 show ?thesis by blast
qed

theorem trailing_period_needs_word_char_witness:
  "search_from True (snd (patterns ! 8)) ''B.P.x 120/80'' 0 = Some (0, 4)
   \<and> ''B.P.x 120/80'' ! (4 - 1) = CHR ''.''
   \<and> 4 < length ''B.P.x 120/80'' \<and> is_word (''B.P.x 120/80'' ! 4)"
proof -
  have a: "patterns ! 8 \<in> set patterns" by (simp add: patterns_def)
  have b: "search_from True (snd (patterns ! 8)) ''B.P.x 120/80'' 0 = Some (0, 4)" by code_simp
  have c: "(0::nat) < 4" by simp
  have d: "''B.P.x 120/80'' ! (4 - 1) = CHR ''.''" by simp
  from trailing_period_needs_word_char [OF a b c d] b d show ?thesis by blast
qed




text \<open>
  C4, as amended. Every stored value has the shape of its metric, where the shape of a
  decimal value allows the period to be the last character: Blood Pressure holds two or
  three digits, a slash and two or three digits, so \<open>120/80\<close> is accepted and \<open>5/3\<close> is
  rejected; every other metric holds one or more digits, optionally followed by one period
  and any number of digits, none included. The counterexample to the shape with digits
  required after the period is the line \<open>HDL 7.a\<close>, which stores \<open>7.\<close> for HDL.
\<close>

theorem stored_value_shapes:
  "((k, Some v) \<in> set (extract_health_values doc) \<longrightarrow>
      (if k = ''Blood Pressure'' then ratio_shape v else decimal_shape v))
   \<and> map_of (extract_health_values ''Blood Pressure 120/80'') ''Blood Pressure'' = Some (Some ''120/80'')
   \<and> map_of (extract_health_values ''Blood Pressure 5/3'') ''Blood Pressure'' = Some None"
proof -
  have 1: "if k = ''Blood Pressure'' then ratio_shape v else decimal_shape v"
    if "(k, Some v) \<in> set (extract_health_values doc)"
  proof -
    from extract_values [OF that] obtain kp l where
      "k = fst kp" "value_on_line (clean l) kp = Some v" by blast
    then show ?thesis using value_on_line_shape [of "clean l" kp v] by simp
  qed
  have 2: "map_of (extract_health_values ''Blood Pressure 120/80'') ''Blood Pressure'' = Some (Some ''120/80'')"
    by code_simp
  have 3: "map_of (extract_health_values ''Blood Pressure 5/3'') ''Blood Pressure'' = Some None"
    by code_simp
  from 1 2 3 show ?thesis by blast
qed

theorem stored_value_shapes_witness:
  "(''HDL'', Some ''7.'') \<in> set (extract_health_values ''HDL 7.a'') \<and> decimal_shape ''7.''
   \<and> (''Blood Pressure'', Some ''120/80'') \<in> set (extract_health_values ''Blood Pressure 120/80 mmHg'')
   \<and> ratio_shape ''120/80''"
proof -
  have a: "(''HDL'', Some ''7.'') \<in> set (extract_health_values ''HDL 7.a'')" by code_simp
  have b: "(''Blood Pressure'', Some ''120/80'') \<in> set (extract_health_values ''Blood Pressure 120/80 mmHg'')"
    by code_simp
  from stored_value_shapes [of "''HDL''" "''7.''" "''HDL 7.a''"] a
  have "decimal_shape ''7.''" by simp
  moreover from stored_value_shapes [of "''Blood Pressure''" "''120/80''" "''Blood Pressure 120/80 mmHg''"] b
  have "ratio_shape ''120/80''" by simp
  ultimately show ?thesis using a b by blast
qed

theorem strict_decimal_shape_counterexample:
  "(''HDL'', Some ''7.'') \<in> set (extract_health_values ''HDL 7.a'')
   \<and> \<not> strict_decimal_shape ''7.''"
  by code_simp

text \<open>
  C3, as amended. For a decimal metric whose label matches in a cleaned line, the value
  of the line is the text of the first number token at or after the end of the label, the
  comma replaced by a period: the token starts and ends at a word boundary, consists of
  one or more digits optionally followed by one period or comma and any number of digits,
  no token starts earlier, and no token from the same start is longer. The line has no
  value exactly when no token starts at or after the end of the label. \<open>7,2\<close> yields
  \<open>7.2\<close> and \<open>7.2\<close> stays \<open>7.2\<close>. The counterexample to the first maximal run of digits,
  separator and digits: \<open>HDL 12.5mg\<close> yields \<open>12.\<close> and not \<open>12.5\<close>, and \<open>HDL 12mg 40\<close>
  yields \<open>40\<close> and not \<open>12\<close>.
\<close>

theorem decimal_value_is_first_token:
  assumes "kp \<in> set patterns" "fst kp \<noteq> ''Blood Pressure''"
    and "search_from True (snd kp) s 0 = Some (m_start, m_end)"
  shows "(value_on_line s kp = None \<longleftrightarrow> (\<forall>a b. m_end \<le> a \<longrightarrow> \<not> num_token s a b))
       \<and> (value_on_line s kp = Some v \<longrightarrow>
            (\<exists>a b. m_end \<le> a \<and> num_token s a b \<and> v = replace_comma (slice s a b)
                 \<and> (\<forall>a' b'. m_end \<le> a' \<and> a' < a \<longrightarrow> \<not> num_token s a' b')
                 \<and> (\<forall>b'. num_token s a b' \<longrightarrow> b' \<le> b)))
       \<and> value_on_line ''HbA1c 7,2'' (patterns ! 1) = Some ''7.2''
       \<and> value_on_line ''HbA1c 7.2'' (patterns ! 1) = Some ''7.2''"
proof -
  have val: "value_on_line s kp =
      (case search_from False num_pat s m_end of
         None \<Rightarrow> None
       | Some (a, b) \<Rightarrow> Some (replace_comma (slice s a b)))"
    using assms(2,3) by (simp add: value_on_line_def)
  have 1: "value_on_line s kp = None \<longleftrightarrow> (\<forall>a b. m_end \<le> a \<longrightarrow> \<not> num_token s a b)"
  proof (cases "search_from False num_pat s m_end")
    case None
    then show ?thesis using val num_search_None [OF None] by simp
  next
    case (Some ab)
    obtain a b where ab: "ab = (a, b)" by (cases ab)
    from num_search_Some [OF Some [unfolded ab]] have "m_end \<le> a" "num_token s a b" by simp_all
    then show ?thesis using val Some ab by auto
  qed
  have 2: "\<exists>a b. m_end \<le> a \<and> num_token s a b \<and> v = replace_comma (slice s a b)
                 \<and> (\<forall>a' b'. m_end \<le> a' \<and> a' < a \<longrightarrow> \<not> num_token s a' b')
                 \<and> (\<forall>b'. num_token s a b' \<longrightarrow> b' \<le> b)"
    if "value_on_line s kp = Some v"
  proof -
    from that val obtain a b where
      s: "search_from False num_pat s m_end = Some (a, b)" and v: "v = replace_comma (slice s a b)"
      by (auto split: option.splits)
    from num_search_Some [OF s] v show ?thesis by blast
  qed
  have 3: "value_on_line ''HbA1c 7,2'' (patterns ! 1) = Some ''7.2''"
    by code_simp
  have 4: "value_on_line ''HbA1c 7.2'' (patterns ! 1) = Some ''7.2''"
    by code_simp
  from 1 2 3 4 show ?thesis by blast
qed

theorem decimal_value_is_first_token_witness:
  "search_from True (snd (patterns ! 2)) ''HDL x5 12.5mg'' 0 = Some (0, 3)
   \<and> value_on_line ''HDL x5 12.5mg'' (patterns ! 2) = Some ''12.''
   \<and> (\<exists>a b. 3 \<le> a \<and> num_token ''HDL x5 12.5mg'' a b
          \<and> ''12.'' = replace_comma (slice ''HDL x5 12.5mg'' a b))"
proof -
  have a: "patterns ! 2 \<in> set patterns" by (simp add: patterns_def)
  have b: "fst (patterns ! 2) \<noteq> ''Blood Pressure''" by (simp add: patterns_def)
  have c: "search_from True (snd (patterns ! 2)) ''HDL x5 12.5mg'' 0 = Some (0, 3)" by code_simp
  have d: "value_on_line ''HDL x5 12.5mg'' (patterns ! 2) = Some ''12.''" by code_simp
  from decimal_value_is_first_token [OF a b c, of "''12.''"] d
  have "\<exists>a b. 3 \<le> a \<and> num_token ''HDL x5 12.5mg'' a b
          \<and> ''12.'' = replace_comma (slice ''HDL x5 12.5mg'' a b)"
    by blast
  with c d show ?thesis by blast
qed

theorem first_maximal_run_counterexample:
  "clean ''HDL 12.5mg'' = ''HDL 12.5mg''
   \<and> search_from True (snd (patterns ! 2)) ''HDL 12.5mg'' 0 = Some (0, 3)
   \<and> value_on_line ''HDL 12.5mg'' (patterns ! 2) = Some ''12.''
   \<and> map_of (extract_health_values ''HDL 12.5mg'') ''HDL'' = Some (Some ''12.'')
   \<and> spec_decimal_value ''HDL 12.5mg'' 3 = Some ''12.5''
   \<and> map_of (extract_health_values ''HDL 12mg 40'') ''HDL'' = Some (Some ''40'')
   \<and> spec_decimal_value ''HDL 12mg 40'' 3 = Some ''12''"
  by code_simp

text \<open>
  C6. On every line of the input, the cleaned line that the two substitutions and
  \<open>strip\<close> compute is the normalization the specification describes: every opening
  parenthesis with a closing one after it is removed up to the first closing one, other
  parentheses stay, every run of whitespace becomes one space, and the whitespace at both
  ends is trimmed: the cleaned line is what is left of the collapsed line between a
  leading and a trailing stretch of whitespace, and it neither starts nor ends with
  whitespace. The line \<open>HbA1c (ref 4-6%) 5.8%\<close> is cleaned to \<open>HbA1c 5.8%\<close> and yields
  HbA1c = 5.8.
\<close>

theorem clean_is_spec_normalize:
  assumes "line \<in> set (splitlines doc)"
  shows "clean line = spec_normalize line
       \<and> (\<exists>a b. spec_collapse (spec_strip_parens line) = a @ clean line @ b
                 \<and> list_all is_space a \<and> list_all is_space b)
       \<and> (clean line \<noteq> [] \<longrightarrow>
            \<not> is_space (hd (clean line)) \<and> \<not> is_space (last (clean line)))
       \<and> clean ''HbA1c (ref 4-6%) 5.8%'' = ''HbA1c 5.8%''
       \<and> map_of (extract_health_values ''HbA1c (ref 4-6%) 5.8%'') ''HbA1c'' = Some (Some ''5.8'')
       \<and> clean ''a (b (c) d) e ) ( f'' = ''a d) e ) ( f''
       \<and> clean (CHR 0x09 # ''  HbA1c  5.8%  '') = ''HbA1c 5.8%''"
proof -
  have nl: "CHR 0x0A \<notin> set line" using assms by (rule line_no_newline)
  have 1: "clean line = spec_normalize line"
    using nl by (rule clean_eq_spec)
  have 2: "\<exists>a b. spec_collapse (spec_strip_parens line) = a @ clean line @ b
                 \<and> list_all is_space a \<and> list_all is_space b"
    unfolding clean_eq_strip [OF nl] by (rule strip_parts)
  have 3: "\<not> is_space (hd (clean line)) \<and> \<not> is_space (last (clean line))"
    if "clean line \<noteq> []"
    using that unfolding clean_eq_strip [OF nl] by (rule strip_ends)
  have 4: "clean ''HbA1c (ref 4-6%) 5.8%'' = ''HbA1c 5.8%''"
    by code_simp
  have 5: "map_of (extract_health_values ''HbA1c (ref 4-6%) 5.8%'') ''HbA1c'' = Some (Some ''5.8'')"
    by code_simp
  have 6: "clean ''a (b (c) d) e ) ( f'' = ''a d) e ) ( f''"
    by code_simp
  have 7: "clean (CHR 0x09 # ''  HbA1c  5.8%  '') = ''HbA1c 5.8%''"
    by code_simp
  from 1 2 3 4 5 6 7 show ?thesis by blast
qed

theorem clean_is_spec_normalize_witness:
  "splitlines ''  HbA1c (ref 4-6%)   5.8% '' = [''  HbA1c (ref 4-6%)   5.8% '']
   \<and> spec_normalize ''  HbA1c (ref 4-6%)   5.8% '' = ''HbA1c 5.8%''
   \<and> clean ''  HbA1c (ref 4-6%)   5.8% '' = ''HbA1c 5.8%''
   \<and> spec_collapse (spec_strip_parens ''  HbA1c (ref 4-6%)   5.8% '') = '' HbA1c 5.8% ''"
proof -
  have a: "splitlines ''  HbA1c (ref 4-6%)   5.8% '' = [''  HbA1c (ref 4-6%)   5.8% '']"
    by code_simp
  then have b: "''  HbA1c (ref 4-6%)   5.8% '' \<in> set (splitlines ''  HbA1c (ref 4-6%)   5.8% '')"
    by simp
  have c: "spec_normalize ''  HbA1c (ref 4-6%)   5.8% '' = ''HbA1c 5.8%''"
    by code_simp
  have d: "spec_collapse (spec_strip_parens ''  HbA1c (ref 4-6%)   5.8% '') = '' HbA1c 5.8% ''"
    by code_simp
  from clean_is_spec_normalize [OF b] a c d show ?thesis by simp
qed

end
